theory Spec2Isabelle
  imports Main "HOL-Library.AList"
begin

section \<open>Data model of the Manager (src/ecs/Manager.py)\<close>

text \<open>
  Exceptions are values. \<open>KeyError\<close> is what a missing dictionary key raises,
  \<open>TypeError\<close> what \<^verbatim>\<open>set.intersection()\<close> raises without an argument,
  \<open>AssertionError\<close> the failed \<^verbatim>\<open>assert\<close> of \<open>add_system\<close>; \<open>Exception\<close> stands for
  whatever an application's system may raise from its own \<open>process\<close>.
\<close>

datatype py_error = KeyError | TypeError | AssertionError | Exception string

text \<open>
  A component type is a Python class, named by a string. A component instance carries
  its class (what \<^verbatim>\<open>type(component_instance)\<close> returns) and some data.
\<close>

type_synonym pytype = string

datatype component = Component (class_of: pytype) (payload: int)

text \<open>
  A system object: its identity, its class (what \<^verbatim>\<open>type(system)\<close> returns) and
  whether that class is a subclass of \<open>SystemTemplate\<close>. The mutable attribute
  \<^verbatim>\<open>system.Manager\<close> lives in the store \<open>sys_Manager\<close> below, keyed by the identity,
  so that every reference to one object sees the same attribute.
\<close>

record system =
  oid :: nat
  cls :: pytype
  is_SystemTemplate :: bool

text \<open>
  A Python set of entity ids is the list of its elements in iteration order. The
  language leaves that order open; the model iterates in ascending order. CPython
  iterates by hash slot, which is ascending only for the ids 0 to 7 in a set that never
  grew beyond its first table, so every closed example below uses such ids only.
  \<open>add\<close> and \<open>discard\<close> have the set semantics of the source. The general theorems
  hold for index and pending sets in any order, and speak of the set of the yielded
  entities.
\<close>

type_synonym pyset = "int list"

definition set_add :: "int \<Rightarrow> pyset \<Rightarrow> pyset" where
  "set_add e s = (if e \<in> set s then s else insort e s)"

definition set_discard :: "int \<Rightarrow> pyset \<Rightarrow> pyset" where
  "set_discard e s = removeAll e s"

text \<open>\<^verbatim>\<open>set.intersection(s, *ss)\<close>: the elements of the first set that are in all others.\<close>

definition set_intersection :: "pyset \<Rightarrow> pyset list \<Rightarrow> pyset" where
  "set_intersection s ss = filter (\<lambda>e. list_all (\<lambda>t. e \<in> set t) ss) s"

text \<open>
  An entity's row is a Python dict from component type to instance: an association
  list in insertion order (\<open>AList.update\<close> overwrites in place or appends,
  \<open>AList.delete\<close> removes the key).
\<close>

type_synonym row = "(pytype \<times> component) list"

record manager =
  systems :: "system list"
  next_entity_id :: int
  components :: "pytype \<rightharpoonup> pyset"
  entities :: "int \<rightharpoonup> row"
  dead_entities :: pyset
  sys_Manager :: "nat \<Rightarrow> bool"

text \<open>\<^verbatim>\<open>Manager.__init__\<close>. No system object refers to the new Manager yet.\<close>

definition init :: manager where
  "init = \<lparr>systems = [], next_entity_id = 0, components = Map.empty,
           entities = Map.empty, dead_entities = [], sys_Manager = (\<lambda>_. False)\<rparr>"

section \<open>Operations\<close>

definition clear_database :: "manager \<Rightarrow> manager" where
  "clear_database m =
     m\<lparr>components := Map.empty, entities := Map.empty, dead_entities := [],
       next_entity_id := 0\<rparr>"

definition add_system :: "system \<Rightarrow> manager \<Rightarrow> (py_error + unit) \<times> manager" where
  "add_system system_instance m =
     (if \<not> is_SystemTemplate system_instance then (Inl AssertionError, m)
      else (Inr (),
            m\<lparr>sys_Manager := (sys_Manager m)(oid system_instance := True),
              systems := systems m @ [system_instance]\<rparr>))"

text \<open>
  \<^verbatim>\<open>for system in self._systems\<close> reads the list by a running index, and the body
  removes from the very list it iterates: after a removal the index still advances.
\<close>

function remove_system_loop :: "pytype \<Rightarrow> nat \<Rightarrow> manager \<Rightarrow> manager" where
  "remove_system_loop system_type i m =
     (if i < length (systems m) then
        (let system = systems m ! i in
         if cls system = system_type then
           remove_system_loop system_type (Suc i)
             (m\<lparr>sys_Manager := (sys_Manager m)(oid system := False),
                systems := remove1 system (systems m)\<rparr>)
         else remove_system_loop system_type (Suc i) m)
      else m)"
  by pat_completeness auto
termination
proof (relation "measure (\<lambda>(t, i, m). length (systems m) - i)")
  show "wf (measure (\<lambda>(t, i, m). length (systems m) - i))" by simp
next
  fix system_type :: pytype and i :: nat and m :: manager and x :: system
  assume "i < length (systems m)" and "x = systems m ! i"
  then have "x \<in> set (systems m)" by simp
  then have "length (remove1 x (systems m)) = length (systems m) - 1"
    by (simp add: length_remove1)
  with \<open>i < length (systems m)\<close>
  show "((system_type, Suc i,
          m\<lparr>sys_Manager := (sys_Manager m)(oid x := False),
            systems := remove1 x (systems m)\<rparr>), system_type, i, m)
        \<in> measure (\<lambda>(t, i, m). length (systems m) - i)"
    by simp
next
  fix system_type :: pytype and i :: nat and m :: manager and x :: system
  assume "i < length (systems m)"
  then show "((system_type, Suc i, m), system_type, i, m)
        \<in> measure (\<lambda>(t, i, m). length (systems m) - i)"
    by simp
qed

declare remove_system_loop.simps [simp del]

definition remove_system :: "pytype \<Rightarrow> manager \<Rightarrow> manager" where
  "remove_system system_type m = remove_system_loop system_type 0 m"

definition add_component_to_entity :: "component \<Rightarrow> int \<Rightarrow> manager \<Rightarrow> manager" where
  "add_component_to_entity component_instance entity m =
     (let component_type = class_of component_instance;
          m1 = (if components m component_type = None
                then m\<lparr>components := (components m)(component_type \<mapsto> [])\<rparr> else m);
          m2 = m1\<lparr>components := (components m1)(component_type \<mapsto>
                  set_add entity (case components m1 component_type of
                                    None \<Rightarrow> [] | Some s \<Rightarrow> s))\<rparr>;
          m3 = (if entities m2 entity = None
                then m2\<lparr>entities := (entities m2)(entity \<mapsto> [])\<rparr> else m2)
      in m3\<lparr>entities := (entities m3)(entity \<mapsto>
              AList.update component_type component_instance
                (case entities m3 entity of None \<Rightarrow> [] | Some r \<Rightarrow> r))\<rparr>)"

definition new_entity :: "component list \<Rightarrow> manager \<Rightarrow> int \<times> manager" where
  "new_entity cs m =
     (let m1 = m\<lparr>next_entity_id := next_entity_id m + 1\<rparr>;
          m2 = m1\<lparr>entities := (entities m1)(next_entity_id m1 \<mapsto> [])\<rparr>;
          m3 = fold (\<lambda>c w. add_component_to_entity c (next_entity_id w) w) cs m2
      in (next_entity_id m3, m3))"

text \<open>
  The loop of \<open>remove_entity\<close> over the keys of the entity's row. A component type
  without an index raises \<open>KeyError\<close> at \<^verbatim>\<open>self._components[component_type]\<close>.
\<close>

fun remove_entity_loop :: "int \<Rightarrow> pytype list \<Rightarrow> manager \<Rightarrow> (py_error + unit) \<times> manager" where
  "remove_entity_loop entity [] m = (Inr (), m)"
| "remove_entity_loop entity (component_type # ts) m =
     (case components m component_type of
        None \<Rightarrow> (Inl KeyError, m)
      | Some s \<Rightarrow>
          (let s' = set_discard entity s;
               m1 = m\<lparr>components := (components m)(component_type \<mapsto> s')\<rparr>;
               m2 = (if s' = [] then m1\<lparr>components := (components m1)(component_type := None)\<rparr>
                     else m1)
           in remove_entity_loop entity ts m2))"

definition remove_entity :: "int \<Rightarrow> bool \<Rightarrow> manager \<Rightarrow> (py_error + unit) \<times> manager" where
  "remove_entity entity immediate m =
     (if immediate then
        (case entities m entity of
           None \<Rightarrow> (Inl KeyError, m)
         | Some r \<Rightarrow>
             (case remove_entity_loop entity (map fst r) m of
                (Inl err, m') \<Rightarrow> (Inl err, m')
              | (Inr u, m') \<Rightarrow>
                  (case entities m' entity of
                     None \<Rightarrow> (Inl KeyError, m')
                   | Some r' \<Rightarrow> (Inr (), m'\<lparr>entities := (entities m')(entity := None)\<rparr>))))
      else (Inr (), m\<lparr>dead_entities := set_add entity (dead_entities m)\<rparr>))"

definition get_component_from_entity :: "pytype \<Rightarrow> int \<Rightarrow> manager \<Rightarrow> py_error + component" where
  "get_component_from_entity component_type entity m =
     (case entities m entity of
        None \<Rightarrow> Inl KeyError
      | Some r \<Rightarrow> (case map_of r component_type of None \<Rightarrow> Inl KeyError | Some c \<Rightarrow> Inr c))"

definition get_all_components_from_entity :: "int \<Rightarrow> manager \<Rightarrow> py_error + component list" where
  "get_all_components_from_entity entity m =
     (case entities m entity of None \<Rightarrow> Inl KeyError | Some r \<Rightarrow> Inr (map snd r))"

definition has_component :: "int \<Rightarrow> pytype \<Rightarrow> manager \<Rightarrow> py_error + bool" where
  "has_component entity component_type m =
     (case entities m entity of
        None \<Rightarrow> Inl KeyError
      | Some r \<Rightarrow> Inr (map_of r component_type \<noteq> None))"

definition remove_component_from_entity ::
  "pytype \<Rightarrow> int \<Rightarrow> manager \<Rightarrow> (py_error + unit) \<times> manager" where
  "remove_component_from_entity component_type entity m =
     (case components m component_type of
        None \<Rightarrow> (Inl KeyError, m)
      | Some s \<Rightarrow>
          (let s' = set_discard entity s;
               m1 = m\<lparr>components := (components m)(component_type \<mapsto> s')\<rparr>;
               m2 = (if s' = [] then m1\<lparr>components := (components m1)(component_type := None)\<rparr>
                     else m1)
           in (case entities m2 entity of
                 None \<Rightarrow> (Inl KeyError, m2)
               | Some r \<Rightarrow>
                   (if map_of r component_type = None then (Inl KeyError, m2)
                    else
                      (let r' = AList.delete component_type r;
                           m3 = m2\<lparr>entities := (entities m2)(entity \<mapsto> r')\<rparr>
                       in (Inr (),
                           if r' = [] then m3\<lparr>entities := (entities m3)(entity := None)\<rparr>
                           else m3))))))"

text \<open>
  \<open>get_component\<close> is a generator: the model returns the pairs it yields, in order, and
  how the iteration ends (\<open>None\<close>: exhausted; \<open>Some e\<close>: it raised \<open>e\<close> after them).
  The state is the one at the time of the iteration.
\<close>

fun get_component_loop ::
  "pytype \<Rightarrow> int list \<Rightarrow> manager \<Rightarrow> (int \<times> component) list \<times> py_error option" where
  "get_component_loop component_type [] m = ([], None)"
| "get_component_loop component_type (entity # es) m =
     (case get_component_from_entity component_type entity m of
        Inl err \<Rightarrow> ([], Some err)
      | Inr c \<Rightarrow>
          (case get_component_loop component_type es m of
             (ys, r) \<Rightarrow> ((entity, c) # ys, r)))"

definition get_component ::
  "pytype \<Rightarrow> manager \<Rightarrow> (int \<times> component) list \<times> py_error option" where
  "get_component component_type m =
     get_component_loop component_type
       (case components m component_type of None \<Rightarrow> [] | Some s \<Rightarrow> s) m"

text \<open>The comprehension \<^verbatim>\<open>[component_db[component_type] for component_type in component_types]\<close>.\<close>

fun lookup_indexes :: "pytype list \<Rightarrow> manager \<Rightarrow> py_error + pyset list" where
  "lookup_indexes [] m = Inr []"
| "lookup_indexes (component_type # ts) m =
     (case components m component_type of
        None \<Rightarrow> Inl KeyError
      | Some s \<Rightarrow> (case lookup_indexes ts m of Inl err \<Rightarrow> Inl err | Inr ss \<Rightarrow> Inr (s # ss)))"

text \<open>The comprehension \<^verbatim>\<open>[entity_db[entity][component_type] for component_type in component_types]\<close>.\<close>

fun lookup_components :: "int \<Rightarrow> pytype list \<Rightarrow> manager \<Rightarrow> py_error + component list" where
  "lookup_components entity [] m = Inr []"
| "lookup_components entity (component_type # ts) m =
     (case get_component_from_entity component_type entity m of
        Inl err \<Rightarrow> Inl err
      | Inr c \<Rightarrow>
          (case lookup_components entity ts m of Inl err \<Rightarrow> Inl err | Inr cs \<Rightarrow> Inr (c # cs)))"

text \<open>
  The loop of \<open>get_components\<close> runs inside \<^verbatim>\<open>try ... except KeyError: pass\<close>: a
  \<open>KeyError\<close> ends the generator after the pairs already yielded.
\<close>

fun get_components_loop ::
  "pytype list \<Rightarrow> int list \<Rightarrow> manager \<Rightarrow> (int \<times> component list) list" where
  "get_components_loop component_types [] m = []"
| "get_components_loop component_types (entity # es) m =
     (case lookup_components entity component_types m of
        Inl err \<Rightarrow> []
      | Inr cs \<Rightarrow> (entity, cs) # get_components_loop component_types es m)"

text \<open>
  The index sets are looked up first (a missing one raises the \<open>KeyError\<close> that the
  \<^verbatim>\<open>except\<close> swallows); with no type at all \<^verbatim>\<open>set.intersection()\<close> raises \<open>TypeError\<close>,
  which nothing catches.
\<close>

definition get_components ::
  "pytype list \<Rightarrow> manager \<Rightarrow> (int \<times> component list) list \<times> py_error option" where
  "get_components component_types m =
     (case lookup_indexes component_types m of
        Inl err \<Rightarrow> ([], None)
      | Inr [] \<Rightarrow> ([], Some TypeError)
      | Inr (s # ss) \<Rightarrow>
          (get_components_loop component_types (set_intersection s ss) m, None))"

text \<open>
  The first half of \<open>process\<close>: every entity of the pending set is removed with
  \<open>immediate=True\<close>; a \<open>KeyError\<close> leaves the loop at once.
\<close>

fun remove_dead :: "int list \<Rightarrow> manager \<Rightarrow> (py_error + unit) \<times> manager" where
  "remove_dead [] m = (Inr (), m)"
| "remove_dead (entity # es) m =
     (case remove_entity entity True m of
        (Inl err, m') \<Rightarrow> (Inl err, m')
      | (Inr u, m') \<Rightarrow> remove_dead es m')"

definition reconcile :: "manager \<Rightarrow> (py_error + unit) \<times> manager" where
  "reconcile m =
     (if dead_entities m \<noteq> [] then
        (case remove_dead (dead_entities m) m of
           (Inl err, m') \<Rightarrow> (Inl err, m')
         | (Inr u, m') \<Rightarrow> (Inr (), m'\<lparr>dead_entities := []\<rparr>))
      else (Inr (), m))"

text \<open>
  \<open>SystemTemplate\<close> and the systems of an application are not part of the Manager:
  what \<^verbatim>\<open>system.process(*args)\<close> does to the Manager, and whether it raises, is the
  parameter \<open>proc\<close>. A system may register further systems while the loop runs, so the
  loop over \<^verbatim>\<open>self._systems\<close> (by running index, on the current list) need not end:
  \<open>None\<close> is a call that never returns.
\<close>

type_synonym 'a process_fn = "system \<Rightarrow> 'a \<Rightarrow> manager \<Rightarrow> (py_error + unit) \<times> manager"

partial_function (option) dispatch ::
  "'a process_fn \<Rightarrow> 'a \<Rightarrow> nat \<Rightarrow> manager \<Rightarrow> ((py_error + unit) \<times> manager) option" where
  "dispatch proc args i m =
     (if i < length (systems m) then
        (case proc (systems m ! i) args m of
           (Inl err, m') \<Rightarrow> Some (Inl err, m')
         | (Inr u, m') \<Rightarrow> dispatch proc args (Suc i) m')
      else Some (Inr (), m))"

definition process ::
  "'a process_fn \<Rightarrow> 'a \<Rightarrow> manager \<Rightarrow> ((py_error + unit) \<times> manager) option" where
  "process proc args m =
     (case reconcile m of
        (Inl err, m') \<Rightarrow> Some (Inl err, m')
      | (Inr u, m') \<Rightarrow> dispatch proc args 0 m')"

section \<open>Invariants and drivers for the properties\<close>

text \<open>
  \<open>in_index m T e\<close>: entity \<open>e\<close> is a member of the index set of type \<open>T\<close>.
  \<open>in_row m e T\<close>: the row of \<open>e\<close> in the entity table has the key \<open>T\<close>.
\<close>

definition in_index :: "manager \<Rightarrow> pytype \<Rightarrow> int \<Rightarrow> bool" where
  "in_index m component_type entity =
     (case components m component_type of None \<Rightarrow> False | Some s \<Rightarrow> entity \<in> set s)"

definition in_row :: "manager \<Rightarrow> int \<Rightarrow> pytype \<Rightarrow> bool" where
  "in_row m entity component_type =
     (case entities m entity of None \<Rightarrow> False | Some r \<Rightarrow> map_of r component_type \<noteq> None)"

text \<open>Bidirectional consistency of index and table, and no empty index set.\<close>

definition ecs_invariant :: "manager \<Rightarrow> bool" where
  "ecs_invariant m \<longleftrightarrow>
     (\<forall>component_type entity. in_index m component_type entity = in_row m entity component_type)
     \<and> (\<forall>component_type. components m component_type \<noteq> Some [])"

text \<open>
  The representation invariant of the rows: a Python dict has each key once. Every
  operation keeps it (\<open>AList.update\<close> and \<open>AList.delete\<close> do).
\<close>

definition rows_are_dicts :: "manager \<Rightarrow> bool" where
  "rows_are_dicts m \<longleftrightarrow> (\<forall>entity r. entities m entity = Some r \<longrightarrow> distinct (map fst r))"

text \<open>An entity that has no row and is in no index set.\<close>

definition absent :: "manager \<Rightarrow> int \<Rightarrow> bool" where
  "absent m entity \<longleftrightarrow> entities m entity = None \<and> (\<forall>component_type. \<not> in_index m component_type entity)"

text \<open>
  The dispatch as the specification words it: \<open>process\<close> of every system of a given
  list, once each, in the order of the list, with the same arguments; an exception ends it.
\<close>

fun spec_dispatch :: "'a process_fn \<Rightarrow> 'a \<Rightarrow> system list \<Rightarrow> manager \<Rightarrow> (py_error + unit) \<times> manager" where
  "spec_dispatch proc args [] m = (Inr (), m)"
| "spec_dispatch proc args (s # ss) m =
     (case proc s args m of
        (Inl err, m') \<Rightarrow> (Inl err, m')
      | (Inr u, m') \<Rightarrow> spec_dispatch proc args ss m')"

text \<open>
  A caller's sequence of \<open>new_entity\<close> and \<open>remove_entity(immediate=True)\<close> calls on one
  Manager. The caller goes on after a \<open>KeyError\<close>; the result lists the identifiers
  that the \<open>new_entity\<close> calls returned, in call order.
\<close>

datatype call = New_entity "component list" | Remove_entity_now int

fun run_calls :: "call list \<Rightarrow> manager \<Rightarrow> int list \<times> manager" where
  "run_calls [] m = ([], m)"
| "run_calls (New_entity cs # rest) m =
     (case new_entity cs m of
        (i, m') \<Rightarrow> (case run_calls rest m' of (ids, m'') \<Rightarrow> (i # ids, m'')))"
| "run_calls (Remove_entity_now entity # rest) m =
     run_calls rest (snd (remove_entity entity True m))"

text \<open>Concrete values for the examples below.\<close>

definition position :: component where
  "position = Component ''Position'' 0"

definition velocity :: component where
  "velocity = Component ''Velocity'' 0"

definition movement1 :: system where
  "movement1 = \<lparr>oid = 1, cls = ''Movement'', is_SystemTemplate = True\<rparr>"

definition render2 :: system where
  "render2 = \<lparr>oid = 2, cls = ''Render'', is_SystemTemplate = True\<rparr>"

definition movement3 :: system where
  "movement3 = \<lparr>oid = 3, cls = ''Movement'', is_SystemTemplate = True\<rparr>"

text \<open>Entity 1 with a Position and a Velocity, entity 2 with a Position only.\<close>

definition two_entities :: manager where
  "two_entities = snd (new_entity [position] (snd (new_entity [position, velocity] init)))"

text \<open>
  One call of a Manager operation other than \<open>process\<close>, by a caller that observes
  whether it raised and the state it left. For the two generators the call is a full
  iteration.
\<close>

datatype operation =
    Op_clear_database
  | Op_add_system system
  | Op_remove_system pytype
  | Op_new_entity "component list"
  | Op_remove_entity int bool
  | Op_get_component_from_entity pytype int
  | Op_get_all_components_from_entity int
  | Op_has_component int pytype
  | Op_add_component_to_entity component int
  | Op_remove_component_from_entity pytype int
  | Op_get_component pytype
  | Op_get_components "pytype list"

definition raised :: "py_error + 'a \<Rightarrow> py_error option" where
  "raised r = (case r of Inl err \<Rightarrow> Some err | Inr v \<Rightarrow> None)"

fun perform :: "operation \<Rightarrow> manager \<Rightarrow> py_error option \<times> manager" where
  "perform Op_clear_database m = (None, clear_database m)"
| "perform (Op_add_system s) m = (raised (fst (add_system s m)), snd (add_system s m))"
| "perform (Op_remove_system t) m = (None, remove_system t m)"
| "perform (Op_new_entity cs) m = (None, snd (new_entity cs m))"
| "perform (Op_remove_entity e immediate) m =
     (raised (fst (remove_entity e immediate m)), snd (remove_entity e immediate m))"
| "perform (Op_get_component_from_entity t e) m = (raised (get_component_from_entity t e m), m)"
| "perform (Op_get_all_components_from_entity e) m =
     (raised (get_all_components_from_entity e m), m)"
| "perform (Op_has_component e t) m = (raised (has_component e t m), m)"
| "perform (Op_add_component_to_entity c e) m = (None, add_component_to_entity c e m)"
| "perform (Op_remove_component_from_entity t e) m =
     (raised (fst (remove_component_from_entity t e m)),
      snd (remove_component_from_entity t e m))"
| "perform (Op_get_component t) m = (snd (get_component t m), m)"
| "perform (Op_get_components ts) m = (snd (get_components ts m), m)"

text \<open>
  Three systems' \<open>process\<close> for the examples: one that does nothing, one that creates
  an entity, one that raises.
\<close>

definition idle :: "unit process_fn" where
  "idle s args m = (Inr (), m)"

definition spawner :: "unit process_fn" where
  "spawner s args m = (Inr (), snd (new_entity [] m))"

definition failing :: "unit process_fn" where
  "failing s args m = (Inl (Exception ''boom''), m)"

text \<open>
  States for the examples. \<open>registered\<close>: a fresh Manager with a Movement and a Render
  system. \<open>one_live\<close>: then entity 1 is created with a Position. \<open>pending_one\<close>: then it is
  marked for deferred removal. \<open>pending_rowless\<close>: then its only component is removed, which
  deletes its row. \<open>pending_unknown\<close>: instead, the id 2, never created, is marked too.
\<close>

definition registered :: manager where
  "registered = snd (add_system render2 (snd (add_system movement1 init)))"

definition one_live :: manager where
  "one_live = snd (new_entity [position] registered)"

definition pending_one :: manager where
  "pending_one = snd (remove_entity 1 False one_live)"

definition pending_rowless :: manager where
  "pending_rowless = snd (remove_component_from_entity ''Position'' 1 pending_one)"

definition pending_unknown :: manager where
  "pending_unknown = snd (remove_entity 2 False pending_one)"

text \<open>
  Entities 1 and 2 are created with a Position each; entity 1 is marked for deferred
  removal and then removed at once, which leaves its id in the pending set.
\<close>

definition destroyed_while_pending :: manager where
  "destroyed_while_pending =
     snd (remove_entity 1 True (snd (remove_entity 1 False
       (snd (new_entity [position] (snd (new_entity [position] init)))))))"

text \<open>A Position is attached to the id 1 before any entity was created.\<close>

definition attached_early :: manager where
  "attached_early = add_component_to_entity position 1 init"

text \<open>
  \<open>attached_two_early\<close>: a Velocity is attached to the id 1 as well. \<open>overwritten\<close> and
  \<open>overwritten_two\<close>: then \<open>new_entity()\<close> is called, which returns 1.
\<close>

definition attached_two_early :: manager where
  "attached_two_early = add_component_to_entity velocity 1 attached_early"

definition overwritten :: manager where
  "overwritten = snd (new_entity [] attached_early)"

definition overwritten_two :: manager where
  "overwritten_two = snd (new_entity [] attached_two_early)"

text \<open>A system whose \<open>process\<close> unregisters the systems of its own class.\<close>

definition unregistering :: "unit process_fn" where
  "unregistering s args m = (Inr (), remove_system (cls s) m)"

section \<open>Properties\<close>

subsection \<open>Sets, rows and the invariant\<close>

lemma set_set_add [simp]: "set (set_add e s) = insert e (set s)"
  by (auto simp: set_add_def set_insort_key)

lemma set_add_not_Nil [simp]: "set_add e s \<noteq> []"
  by (metis set_set_add insert_not_empty set_empty)

lemma set_set_discard [simp]: "set (set_discard e s) = set s - {e}"
  by (auto simp: set_discard_def)

lemma set_discard_absent: "e \<notin> set s \<Longrightarrow> set_discard e s = s"
  by (simp add: set_discard_def)

lemma set_set_intersection:
  "set (set_intersection s ss) = {e \<in> set s. \<forall>t \<in> set ss. e \<in> set t}"
  by (auto simp: set_intersection_def list_all_iff)

lemma components_add_component:
  "components (add_component_to_entity c e m) =
     (components m)(class_of c \<mapsto>
        set_add e (case components m (class_of c) of None \<Rightarrow> [] | Some s \<Rightarrow> s))"
  by (auto simp: add_component_to_entity_def Let_def)

lemma entities_add_component:
  "entities (add_component_to_entity c e m) =
     (entities m)(e \<mapsto>
        AList.update (class_of c) c (case entities m e of None \<Rightarrow> [] | Some r \<Rightarrow> r))"
  by (auto simp: add_component_to_entity_def Let_def)

lemma others_add_component:
  "systems (add_component_to_entity c e m) = systems m"
  "next_entity_id (add_component_to_entity c e m) = next_entity_id m"
  "dead_entities (add_component_to_entity c e m) = dead_entities m"
  "sys_Manager (add_component_to_entity c e m) = sys_Manager m"
  by (simp_all add: add_component_to_entity_def Let_def)

lemma next_entity_id_fold_add:
  "next_entity_id (fold (\<lambda>c w. add_component_to_entity c (next_entity_id w) w) cs m)
     = next_entity_id m"
  by (induction cs arbitrary: m) (simp_all add: others_add_component)

lemma new_entity_id:
  "fst (new_entity cs m) = next_entity_id m + 1"
  "next_entity_id (snd (new_entity cs m)) = next_entity_id m + 1"
  by (simp_all add: new_entity_def Let_def next_entity_id_fold_add)

lemma add_component_eval:
  "add_component_to_entity c e m =
     m\<lparr>components := (components m)(class_of c \<mapsto>
          set_add e (case components m (class_of c) of None \<Rightarrow> [] | Some s \<Rightarrow> s)),
       entities := (entities m)(e \<mapsto>
          AList.update (class_of c) c (case entities m e of None \<Rightarrow> [] | Some r \<Rightarrow> r))\<rparr>"
  by (auto simp: add_component_to_entity_def Let_def)

lemma new_entity_eval:
  "new_entity cs m =
     (next_entity_id m + 1,
      fold (\<lambda>c. add_component_to_entity c (next_entity_id m + 1)) cs
        (m\<lparr>next_entity_id := next_entity_id m + 1,
           entities := (entities m)(next_entity_id m + 1 \<mapsto> [])\<rparr>))"
proof -
  have "\<And>w. fold (\<lambda>c w. add_component_to_entity c (next_entity_id w) w) cs w
      = fold (\<lambda>c. add_component_to_entity c (next_entity_id w)) cs w"
    by (induction cs) (simp_all add: others_add_component)
  then have "snd (new_entity cs m) =
      fold (\<lambda>c. add_component_to_entity c (next_entity_id m + 1)) cs
        (m\<lparr>next_entity_id := next_entity_id m + 1,
           entities := (entities m)(next_entity_id m + 1 \<mapsto> [])\<rparr>)"
    by (simp add: new_entity_def Let_def)
  then show ?thesis by (simp add: prod_eq_iff new_entity_id(1))
qed

lemma in_index_add_component:
  "in_index (add_component_to_entity c e m) T x \<longleftrightarrow> (T = class_of c \<and> x = e) \<or> in_index m T x"
  by (auto simp: in_index_def components_add_component split: option.splits)

lemma in_row_add_component:
  "in_row (add_component_to_entity c e m) x T \<longleftrightarrow> (T = class_of c \<and> x = e) \<or> in_row m x T"
  by (auto simp: in_row_def entities_add_component update_conv' split: option.splits)

lemma ecs_invariant_add_component:
  "ecs_invariant m \<Longrightarrow> ecs_invariant (add_component_to_entity c e m)"
  by (simp add: ecs_invariant_def in_index_add_component in_row_add_component
      components_add_component)

lemma rows_are_dicts_add_component:
  "rows_are_dicts m \<Longrightarrow> rows_are_dicts (add_component_to_entity c e m)"
  by (auto simp: rows_are_dicts_def entities_add_component distinct_update split: option.splits)


lemma set_discard_Nil: "set_discard e s = [] \<Longrightarrow> x \<in> set s \<Longrightarrow> x = e"
proof -
  assume "set_discard e s = []" and "x \<in> set s"
  then have "set s - {e} = {}" by (metis set_set_discard set_empty)
  with \<open>x \<in> set s\<close> show "x = e" by auto
qed

lemma delete_Nil: "AList.delete k r = [] \<Longrightarrow> map_of r k' = Some y \<Longrightarrow> k' = k"
proof -
  assume "AList.delete k r = []" and "map_of r k' = Some y"
  then have "((map_of r)(k := None)) k' = None" by (metis delete_conv' map_of.simps(1))
  with \<open>map_of r k' = Some y\<close> show "k' = k" by (auto split: if_splits)
qed

lemma remove_component_error_unchanged:
  assumes "ecs_invariant m" and "remove_component_from_entity T e m = (Inl err, m')"
  shows "m' = m"
proof (cases "components m T")
  case None
  with assms(2) show ?thesis by (simp add: remove_component_from_entity_def)
next
  case (Some s)
  have ne: "s \<noteq> []" using assms(1) Some by (auto simp: ecs_invariant_def)
  have "\<not> in_row m e T"
    using assms(2) Some
    by (auto simp: remove_component_from_entity_def Let_def in_row_def
        split: option.splits if_splits)
  then have "e \<notin> set s"
    using assms(1) Some by (auto simp: ecs_invariant_def in_index_def split: option.splits)
  then have "set_discard e s = s" by (rule set_discard_absent)
  then have m2: "(if set_discard e s = []
               then m\<lparr>components := (components m)(T \<mapsto> set_discard e s)\<rparr>
                     \<lparr>components := (components (m\<lparr>components := (components m)(T \<mapsto> set_discard e s)\<rparr>))(T := None)\<rparr>
               else m\<lparr>components := (components m)(T \<mapsto> set_discard e s)\<rparr>) = m"
    using ne Some by (simp add: fun_upd_idem)
  show ?thesis
    using assms(2) Some \<open>set_discard e s = s\<close> ne
    by (auto simp: remove_component_from_entity_def Let_def fun_upd_idem
        split: option.splits if_splits)
qed

lemma remove_component_ok_fields:
  assumes "remove_component_from_entity T e m = (Inr u, m')"
  shows "systems m' = systems m" "next_entity_id m' = next_entity_id m"
    "dead_entities m' = dead_entities m" "sys_Manager m' = sys_Manager m"
  using assms
  by (auto simp: remove_component_from_entity_def Let_def split: option.splits if_splits)

lemma in_index_remove_component:
  assumes "remove_component_from_entity T e m = (Inr u, m')"
  shows "in_index m' T' x \<longleftrightarrow> in_index m T' x \<and> \<not> (T' = T \<and> x = e)"
  using assms
  by (auto simp: remove_component_from_entity_def Let_def in_index_def
      split: option.splits if_splits dest: set_discard_Nil)

lemma in_row_remove_component:
  assumes "remove_component_from_entity T e m = (Inr u, m')"
  shows "in_row m' x T' \<longleftrightarrow> in_row m x T' \<and> \<not> (T' = T \<and> x = e)"
  using assms
  by (auto simp: remove_component_from_entity_def Let_def in_row_def delete_conv'
      split: option.splits if_splits dest: delete_Nil)


lemma remove_entity_loop_fields:
  "remove_entity_loop e ts m = (r, m') \<Longrightarrow>
     entities m' = entities m \<and> systems m' = systems m \<and> next_entity_id m' = next_entity_id m
     \<and> dead_entities m' = dead_entities m \<and> sys_Manager m' = sys_Manager m"
proof (induction ts arbitrary: m)
  case Nil
  then show ?case by simp
next
  case (Cons t ts)
  show ?case
  proof (cases "components m t")
    case None
    with Cons.prems show ?thesis by simp
  next
    case (Some s)
    let ?m1 = "m\<lparr>components := (components m)(t \<mapsto> set_discard e s)\<rparr>"
    let ?m2 = "if set_discard e s = []
               then ?m1\<lparr>components := (components ?m1)(t := None)\<rparr> else ?m1"
    from Cons.prems Some have "remove_entity_loop e ts ?m2 = (r, m')"
      by (simp add: Let_def)
    from Cons.IH [OF this] show ?thesis by (simp split: if_splits)
  qed
qed

lemma remove_entity_loop_ok:
  "distinct ts \<Longrightarrow> \<forall>t \<in> set ts. components m t \<noteq> None \<Longrightarrow>
     fst (remove_entity_loop e ts m) = Inr ()"
proof (induction ts arbitrary: m)
  case Nil
  then show ?case by simp
next
  case (Cons t ts)
  from Cons.prems obtain s where s: "components m t = Some s" by auto
  let ?m1 = "m\<lparr>components := (components m)(t \<mapsto> set_discard e s)\<rparr>"
  let ?m2 = "if set_discard e s = []
             then ?m1\<lparr>components := (components ?m1)(t := None)\<rparr> else ?m1"
  have "\<forall>t' \<in> set ts. components ?m2 t' \<noteq> None"
    using Cons.prems by auto
  moreover have "distinct ts" using Cons.prems by simp
  ultimately have "fst (remove_entity_loop e ts ?m2) = Inr ()"
    by (rule Cons.IH [rotated])
  then show ?case using s by (simp add: Let_def)
qed

lemma in_index_remove_entity_loop:
  "remove_entity_loop e ts m = (Inr u, m') \<Longrightarrow>
     in_index m' T x \<longleftrightarrow> in_index m T x \<and> \<not> (T \<in> set ts \<and> x = e)"
proof (induction ts arbitrary: m)
  case Nil
  then show ?case by simp
next
  case (Cons t ts)
  show ?case
  proof (cases "components m t")
    case None
    with Cons.prems show ?thesis by simp
  next
    case (Some s)
    let ?m1 = "m\<lparr>components := (components m)(t \<mapsto> set_discard e s)\<rparr>"
    let ?m2 = "if set_discard e s = []
               then ?m1\<lparr>components := (components ?m1)(t := None)\<rparr> else ?m1"
    from Cons.prems Some have "remove_entity_loop e ts ?m2 = (Inr u, m')"
      by (simp add: Let_def)
    from Cons.IH [OF this]
    have "in_index m' T x \<longleftrightarrow> in_index ?m2 T x \<and> \<not> (T \<in> set ts \<and> x = e)" .
    moreover have "in_index ?m2 T x \<longleftrightarrow> in_index m T x \<and> \<not> (T = t \<and> x = e)"
      using Some by (auto simp: in_index_def dest: set_discard_Nil)
    ultimately show ?thesis by auto
  qed
qed

lemma no_empty_index_remove_entity_loop:
  "remove_entity_loop e ts m = (r, m') \<Longrightarrow> \<forall>T. components m T \<noteq> Some [] \<Longrightarrow>
     components m' T \<noteq> Some []"
proof (induction ts arbitrary: m)
  case Nil
  then show ?case by simp
next
  case (Cons t ts)
  show ?case
  proof (cases "components m t")
    case None
    with Cons.prems show ?thesis by simp
  next
    case (Some s)
    let ?m1 = "m\<lparr>components := (components m)(t \<mapsto> set_discard e s)\<rparr>"
    let ?m2 = "if set_discard e s = []
               then ?m1\<lparr>components := (components ?m1)(t := None)\<rparr> else ?m1"
    from Cons.prems Some have "remove_entity_loop e ts ?m2 = (r, m')"
      by (simp add: Let_def)
    moreover have "\<forall>T. components ?m2 T \<noteq> Some []"
      using Cons.prems(2) by auto
    ultimately show ?thesis by (rule Cons.IH)
  qed
qed

lemma remove_entity_unknown:
  "entities m e = None \<Longrightarrow> remove_entity e True m = (Inl KeyError, m)"
  by (simp add: remove_entity_def)

lemma remove_entity_known:
  assumes inv: "ecs_invariant m" and dicts: "rows_are_dicts m"
    and row: "entities m e = Some r"
  shows "\<exists>m'. remove_entity e True m = (Inr (), m')
           \<and> entities m' = (entities m)(e := None)
           \<and> (\<forall>T x. in_index m' T x \<longleftrightarrow> in_index m T x \<and> x \<noteq> e)
           \<and> (\<forall>T. components m' T \<noteq> Some [])
           \<and> systems m' = systems m \<and> next_entity_id m' = next_entity_id m
           \<and> dead_entities m' = dead_entities m \<and> sys_Manager m' = sys_Manager m"
proof -
  obtain res m1 where loop: "remove_entity_loop e (map fst r) m = (res, m1)"
    by (cases "remove_entity_loop e (map fst r) m")
  have keys: "\<And>T. T \<in> set (map fst r) \<longleftrightarrow> in_index m T e"
    using inv row by (auto simp: ecs_invariant_def in_row_def map_of_eq_None_iff)
  have "distinct (map fst r)" using dicts row by (auto simp: rows_are_dicts_def)
  moreover have "\<forall>t \<in> set (map fst r). components m t \<noteq> None"
  proof
    fix t assume "t \<in> set (map fst r)"
    then have "in_index m t e" by (simp only: keys)
    then show "components m t \<noteq> None" by (auto simp: in_index_def split: option.splits)
  qed
  ultimately have "fst (remove_entity_loop e (map fst r) m) = Inr ()"
    by (rule remove_entity_loop_ok)
  with loop have res: "res = Inr ()" by simp
  note f = remove_entity_loop_fields [OF loop]
  have idx: "\<And>T x. in_index m1 T x \<longleftrightarrow> in_index m T x \<and> x \<noteq> e"
    using in_index_remove_entity_loop [OF loop [unfolded res]] keys by blast
  have ne: "\<And>T. components m1 T \<noteq> Some []"
    using no_empty_index_remove_entity_loop [OF loop] inv by (simp add: ecs_invariant_def)
  let ?m' = "m1\<lparr>entities := (entities m1)(e := None)\<rparr>"
  have "remove_entity e True m = (Inr (), ?m')"
    using row loop res f by (simp add: remove_entity_def)
  moreover have "\<forall>T x. in_index ?m' T x \<longleftrightarrow> in_index m T x \<and> x \<noteq> e"
    using idx by (simp add: in_index_def)
  ultimately show ?thesis using f ne by simp
qed

subsection \<open>has_component on an entity without a row\<close>

text \<open>
  C1. The claim: \<open>has_component(E, T)\<close> never fails and returns false when \<open>E\<close> is not
  a known entity, also when the row of \<open>E\<close> was deleted with its last component.
  The code indexes \<^verbatim>\<open>self._entities[entity]\<close> without a guard: on a fresh Manager, create
  entity 1 with a Position, remove that component (which deletes the row), and ask
  \<open>has_component(1, Position)\<close>: it raises \<open>KeyError\<close>. So does the question about
  an id that was never created.
\<close>

theorem has_component_raises_without_row:
  "fst (new_entity [position] init) = 1
   \<and> has_component 1 ''Position'' (snd (new_entity [position] init)) = Inr True
   \<and> has_component 1 ''Position''
        (snd (remove_component_from_entity ''Position'' 1 (snd (new_entity [position] init))))
      = Inl KeyError
   \<and> has_component 7 ''Position'' init = Inl KeyError"
  by (simp add: has_component_def remove_component_from_entity_def new_entity_eval init_def
      add_component_eval set_add_def set_discard_def Let_def position_def)

subsection \<open>remove_system\<close>

text \<open>
  C2. The claim: \<open>remove_system(T)\<close> removes exactly one system, the first of type \<open>T\<close> in
  registration order, also when several registered systems have that type.
  The loop has no \<^verbatim>\<open>break\<close> and goes on over the list it has just shortened: with the
  systems Movement, Render, Movement registered in this order, \<open>remove_system(Movement)\<close>
  removes both Movement systems and clears both back-references.
\<close>

theorem remove_system_removes_two:
  "systems (snd (add_system movement3 (snd (add_system render2 (snd (add_system movement1 init))))))
     = [movement1, render2, movement3]
   \<and> systems (remove_system ''Movement''
        (snd (add_system movement3 (snd (add_system render2 (snd (add_system movement1 init)))))))
     = [render2]
   \<and> \<not> sys_Manager (remove_system ''Movement''
        (snd (add_system movement3 (snd (add_system render2 (snd (add_system movement1 init))))))) 1
   \<and> \<not> sys_Manager (remove_system ''Movement''
        (snd (add_system movement3 (snd (add_system render2 (snd (add_system movement1 init))))))) 3"
  by (simp add: remove_system_def remove_system_loop.simps add_system_def init_def
      movement1_def render2_def movement3_def)

subsection \<open>get_components with a type that has no index\<close>

lemma lookup_indexes_missing:
  "T \<in> set ts \<Longrightarrow> components m T = None \<Longrightarrow> lookup_indexes ts m = Inl KeyError"
  by (induction ts) (auto split: option.splits sum.splits)

lemma lookup_indexes_ok:
  "\<forall>T \<in> set ts. components m T \<noteq> None \<Longrightarrow>
     \<exists>ss. lookup_indexes ts m = Inr ss \<and> map Some ss = map (components m) ts"
  by (induction ts) (auto split: option.splits sum.splits)

text \<open>
  C5. For a non-empty list of requested component types of which at least one has no
  index set in \<open>components\<close>, \<open>get_components\<close> yields nothing and ends without an
  error: the \<open>KeyError\<close> of the lookup is the one the generator swallows.
\<close>

theorem get_components_missing_index_empty:
  assumes "component_types \<noteq> []"
    and "\<exists>T \<in> set component_types. components m T = None"
  shows "get_components component_types m = ([], None)"
proof -
  from assms(2) obtain T where "T \<in> set component_types" and "components m T = None"
    by blast
  then have "lookup_indexes component_types m = Inl KeyError"
    by (rule lookup_indexes_missing)
  then show ?thesis by (simp add: get_components_def)
qed

theorem get_components_missing_index_empty_witness:
  "get_components [''Position'', ''Velocity''] (snd (new_entity [position] init)) = ([], None)
   \<and> fst (get_components [''Position''] (snd (new_entity [position] init))) = [(1, [position])]"
  using get_components_missing_index_empty
    [of "[''Position'', ''Velocity'']" "snd (new_entity [position] init)"]
  by (simp add: new_entity_eval init_def add_component_eval position_def set_add_def
      get_components_def set_intersection_def get_component_from_entity_def)

subsection \<open>Entity identifiers\<close>

lemma next_entity_id_remove_entity:
  "next_entity_id (snd (remove_entity e b m)) = next_entity_id m"
proof (cases "remove_entity_loop e (map fst (the (entities m e))) m")
  case (Pair r m')
  from remove_entity_loop_fields [OF Pair] show ?thesis
    using Pair by (auto simp: remove_entity_def split: option.splits sum.splits)
qed

lemma run_calls_ids:
  "(\<forall>i \<in> set (fst (run_calls cs m)). next_entity_id m < i)
     \<and> sorted_wrt (<) (fst (run_calls cs m))"
proof (induction cs m rule: run_calls.induct)
  case (1 m)
  show ?case by simp
next
  case (2 cs rest m)
  obtain i m' where ne: "new_entity cs m = (i, m')" by (cases "new_entity cs m")
  obtain ids m'' where rc: "run_calls rest m' = (ids, m'')" by (cases "run_calls rest m'")
  from new_entity_id [of cs m] ne
  have i: "i = next_entity_id m + 1" and m': "next_entity_id m' = next_entity_id m + 1"
    by simp_all
  from "2.IH" [OF ne [symmetric]] rc m'
  have "\<forall>j \<in> set ids. next_entity_id m + 1 < j" and "sorted_wrt (<) ids" by simp_all
  then show ?case using ne rc i by auto
next
  case (3 entity rest m)
  then show ?case by (simp add: next_entity_id_remove_entity)
qed

text \<open>
  C8. For every sequence of \<open>new_entity\<close> and \<open>remove_entity(immediate=True)\<close> calls on one
  Manager, started in any state, the identifiers that the \<open>new_entity\<close> calls return are
  strictly increasing in call order, so none is returned twice. After
  \<open>clear_database\<close> the counter restarts: the next identifier is 1 again.
\<close>

theorem entity_ids_strictly_increasing:
  "sorted_wrt (<) (fst (run_calls cs m)) \<and> distinct (fst (run_calls cs m))
   \<and> fst (new_entity comps (clear_database m')) = 1"
proof -
  have "sorted_wrt (<) (fst (run_calls cs m))" using run_calls_ids by blast
  moreover from this have "distinct (fst (run_calls cs m))"
    by (simp add: strict_sorted_iff)
  moreover have "fst (new_entity comps (clear_database m')) = 1"
    by (simp add: new_entity_id clear_database_def)
  ultimately show ?thesis by blast
qed

theorem entity_ids_strictly_increasing_witness:
  "fst (run_calls [New_entity [position], Remove_entity_now 1, New_entity []] init) = [1, 2]
   \<and> sorted_wrt (<) (fst (run_calls [New_entity [position], Remove_entity_now 1, New_entity []] init))
   \<and> distinct (fst (run_calls [New_entity [position], Remove_entity_now 1, New_entity []] init))
   \<and> fst (new_entity [] (clear_database (snd (new_entity [position] init)))) = 1"
proof -
  have "fst (run_calls [New_entity [position], Remove_entity_now 1, New_entity []] init) = [1, 2]"
    by code_simp
  then show ?thesis
    using entity_ids_strictly_increasing
      [of "[New_entity [position], Remove_entity_now 1, New_entity []]" init "[]"
          "snd (new_entity [position] init)"]
    by blast
qed

subsection \<open>Queries in a consistent state\<close>

lemma in_row_get_component:
  "in_row m e T \<longleftrightarrow> (\<exists>c. get_component_from_entity T e m = Inr c)"
  by (auto simp: in_row_def get_component_from_entity_def split: option.splits)

lemma in_row_has_component:
  "in_row m e T \<longleftrightarrow> has_component e T m = Inr True"
  by (auto simp: in_row_def has_component_def split: option.splits)

lemma lookup_components_ok:
  "\<forall>T \<in> set ts. in_row m e T \<Longrightarrow> \<exists>cs. lookup_components e ts m = Inr cs"
  by (induction ts) (auto simp: in_row_get_component split: sum.splits)

lemma lookup_components_values:
  "lookup_components e ts m = Inr cs \<Longrightarrow>
     map Inr cs = map (\<lambda>T. get_component_from_entity T e m) ts"
  by (induction ts arbitrary: cs) (auto split: sum.splits)

lemma get_components_loop_ok:
  "\<forall>e \<in> set es. \<forall>T \<in> set ts. in_row m e T \<Longrightarrow>
     map fst (get_components_loop ts es m) = es"
proof (induction es)
  case Nil
  then show ?case by simp
next
  case (Cons e es)
  then obtain cs where "lookup_components e ts m = Inr cs"
    using lookup_components_ok [of ts m e] by auto
  with Cons show ?case by simp
qed

lemma get_components_loop_values:
  "(e, cs) \<in> set (get_components_loop ts es m) \<Longrightarrow>
     map Inr cs = map (\<lambda>T. get_component_from_entity T e m) ts"
proof (induction es)
  case Nil
  then show ?case by simp
next
  case (Cons a es)
  show ?case
  proof (cases "lookup_components a ts m")
    case (Inl err)
    with Cons.prems show ?thesis by simp
  next
    case (Inr ds)
    with Cons.prems have "(e, cs) = (a, ds) \<or> (e, cs) \<in> set (get_components_loop ts es m)"
      by simp
    then show ?thesis
    proof
      assume "(e, cs) = (a, ds)"
      with Inr show ?thesis by (auto dest: lookup_components_values)
    next
      assume "(e, cs) \<in> set (get_components_loop ts es m)"
      then show ?thesis by (rule Cons.IH)
    qed
  qed
qed

lemma get_component_loop_ok:
  "\<forall>e \<in> set es. in_row m e T \<Longrightarrow>
     snd (get_component_loop T es m) = None \<and> map fst (fst (get_component_loop T es m)) = es"
proof (induction es)
  case Nil
  then show ?case by simp
next
  case (Cons e es)
  then obtain c where "get_component_from_entity T e m = Inr c"
    by (auto simp: in_row_get_component)
  moreover obtain ys r where "get_component_loop T es m = (ys, r)"
    by (cases "get_component_loop T es m")
  ultimately show ?case using Cons by simp
qed

lemma get_component_loop_values:
  "(e, c) \<in> set (fst (get_component_loop T es m)) \<Longrightarrow> get_component_from_entity T e m = Inr c"
  by (induction es) (auto split: sum.splits prod.splits)

lemma get_components_ok:
  assumes "ecs_invariant m" and "component_types \<noteq> []"
    and "\<forall>T \<in> set component_types. components m T \<noteq> None"
  shows "\<exists>items. get_components component_types m = (items, None)
           \<and> fst ` set items = {e. \<forall>T \<in> set component_types. in_index m T e}
           \<and> fst ` set items = {e. \<forall>T \<in> set component_types. has_component e T m = Inr True}
           \<and> (\<forall>(e, cs) \<in> set items.
                 map Inr cs = map (\<lambda>T. get_component_from_entity T e m) component_types)"
proof -
  from lookup_indexes_ok [OF assms(3)] obtain ss
    where ss: "lookup_indexes component_types m = Inr ss"
      and vals: "map Some ss = map (components m) component_types" by blast
  from assms(2) vals obtain T ts s ss' where
    ts: "component_types = T # ts" and ss': "ss = s # ss'"
    by (cases component_types; cases ss) auto
  let ?inter = "set_intersection s ss'"
  let ?items = "get_components_loop component_types ?inter m"
  have res: "get_components component_types m = (?items, None)"
    using ss ss' by (simp add: get_components_def)
  have agree: "\<And>T e. in_index m T e = in_row m e T"
    using assms(1) by (simp add: ecs_invariant_def)
  have s: "components m T = Some s" and rest: "map Some ss' = map (components m) ts"
    using vals ts ss' by simp_all
  have mem: "\<And>e. e \<in> set ?inter \<longleftrightarrow> (\<forall>T' \<in> set component_types. in_index m T' e)"
  proof -
    fix e
    have "(\<forall>t \<in> set ss'. e \<in> set t) \<longleftrightarrow> (\<forall>T' \<in> set ts. in_index m T' e)"
      using rest
    proof (induction ts arbitrary: ss')
      case Nil
      then show ?case by simp
    next
      case (Cons a ts)
      then obtain b bs where "ss' = b # bs" by (cases ss') auto
      with Cons show ?case by (auto simp: in_index_def split: option.splits)
    qed
    then show "e \<in> set ?inter \<longleftrightarrow> (\<forall>T' \<in> set component_types. in_index m T' e)"
      using s ts by (auto simp: set_set_intersection in_index_def)
  qed
  have "\<forall>e \<in> set ?inter. \<forall>T' \<in> set component_types. in_row m e T'"
    using mem agree by blast
  then have "map fst ?items = ?inter" by (rule get_components_loop_ok)
  then have "fst ` set ?items = set ?inter" by (metis set_map)
  then have ents: "fst ` set ?items = {e. \<forall>T \<in> set component_types. in_index m T e}"
    using mem by auto
  moreover have "{e. \<forall>T \<in> set component_types. in_index m T e}
      = {e. \<forall>T \<in> set component_types. has_component e T m = Inr True}"
    using agree by (simp add: in_row_has_component)
  moreover have "\<forall>(e, cs) \<in> set ?items.
      map Inr cs = map (\<lambda>T. get_component_from_entity T e m) component_types"
    using get_components_loop_values by blast
  ultimately show ?thesis using res by simp
qed


lemma get_component_ok:
  assumes "ecs_invariant m"
  shows "\<exists>items. get_component T m = (items, None)
           \<and> fst ` set items = {e. in_index m T e}
           \<and> (\<forall>(e, c) \<in> set items. get_component_from_entity T e m = Inr c)"
proof -
  let ?es = "case components m T of None \<Rightarrow> [] | Some s \<Rightarrow> s"
  have mem: "\<And>e. e \<in> set ?es \<longleftrightarrow> in_index m T e"
    by (simp add: in_index_def split: option.splits)
  then have "\<forall>e \<in> set ?es. in_row m e T"
    using assms by (simp add: ecs_invariant_def)
  from get_component_loop_ok [OF this]
  have "snd (get_component_loop T ?es m) = None"
    and "map fst (fst (get_component_loop T ?es m)) = ?es" by simp_all
  then have "get_component T m = (fst (get_component_loop T ?es m), None)"
    and "fst ` set (fst (get_component_loop T ?es m)) = set ?es"
    by (simp add: get_component_def prod_eq_iff, metis set_map)
  moreover have "\<forall>(e, c) \<in> set (fst (get_component_loop T ?es m)).
      get_component_from_entity T e m = Inr c"
    using get_component_loop_values by blast
  ultimately show ?thesis using mem by auto
qed

lemma ecs_invariant_init: "ecs_invariant init"
  by (simp add: ecs_invariant_def init_def in_index_def in_row_def)

lemma rows_are_dicts_init: "rows_are_dicts init"
  by (simp add: rows_are_dicts_def init_def)

lemma ecs_invariant_fold_add:
  "ecs_invariant m \<Longrightarrow>
     ecs_invariant (fold (\<lambda>c w. add_component_to_entity c (next_entity_id w) w) cs m)"
  by (induction cs arbitrary: m) (simp_all add: ecs_invariant_add_component)

lemma rows_are_dicts_fold_add:
  "rows_are_dicts m \<Longrightarrow>
     rows_are_dicts (fold (\<lambda>c w. add_component_to_entity c (next_entity_id w) w) cs m)"
  by (induction cs arbitrary: m) (simp_all add: rows_are_dicts_add_component)

lemma ecs_invariant_new_entity:
  assumes "ecs_invariant m" and "entities m (next_entity_id m + 1) = None"
  shows "ecs_invariant (snd (new_entity cs m))"
proof -
  let ?m2 = "m\<lparr>next_entity_id := next_entity_id m + 1,
               entities := (entities m)(next_entity_id m + 1 \<mapsto> [])\<rparr>"
  have "\<And>e T. in_row ?m2 e T = in_row m e T"
    using assms(2) by (simp add: in_row_def)
  moreover have "\<And>e T. in_index ?m2 T e = in_index m T e"
    by (simp add: in_index_def)
  ultimately have "ecs_invariant ?m2"
    using assms(1) by (simp add: ecs_invariant_def)
  then show ?thesis
    by (simp add: new_entity_def Let_def ecs_invariant_fold_add)
qed

lemma rows_are_dicts_new_entity:
  assumes "rows_are_dicts m"
  shows "rows_are_dicts (snd (new_entity cs m))"
proof -
  let ?m2 = "m\<lparr>next_entity_id := next_entity_id m + 1,
               entities := (entities m)(next_entity_id m + 1 \<mapsto> [])\<rparr>"
  have "rows_are_dicts ?m2"
    using assms by (simp add: rows_are_dicts_def)
  then show ?thesis
    by (simp add: new_entity_def Let_def rows_are_dicts_fold_add)
qed

lemma two_entities_eval:
  "two_entities = \<lparr>systems = [], next_entity_id = 2,
      components = [''Velocity'' \<mapsto> [1], ''Position'' \<mapsto> [1, 2]],
      entities = [1 \<mapsto> [(''Position'', position), (''Velocity'', velocity)],
                  2 \<mapsto> [(''Position'', position)]],
      dead_entities = [], sys_Manager = (\<lambda>_. False)\<rparr>"
  by (simp add: two_entities_def new_entity_eval init_def add_component_eval
      position_def velocity_def set_add_def)

lemma ecs_invariant_two_entities: "ecs_invariant two_entities"
proof -
  have "ecs_invariant (snd (new_entity [position, velocity] init))"
    by (rule ecs_invariant_new_entity [OF ecs_invariant_init]) (simp add: init_def)
  moreover have "entities (snd (new_entity [position, velocity] init))
      (next_entity_id (snd (new_entity [position, velocity] init)) + 1) = None"
    by (simp add: new_entity_eval init_def add_component_eval
      position_def velocity_def set_add_def)
  ultimately show ?thesis unfolding two_entities_def by (rule ecs_invariant_new_entity)
qed

text \<open>
  \<open>add_component_to_entity\<close> has no failing branch. After it \<open>has_component\<close> is true for
  the id and type and the instance is the one retrievable, in every state; in a state
  that satisfied the consistency invariant the id is then yielded, with that instance,
  by \<open>get_component\<close> and by \<open>get_components\<close> for that type.
\<close>

lemma add_component_consistent:
  "fst (perform (Op_add_component_to_entity c entity) m) = None
   \<and> has_component entity (class_of c) (add_component_to_entity c entity m) = Inr True
   \<and> get_component_from_entity (class_of c) entity (add_component_to_entity c entity m) = Inr c
   \<and> (ecs_invariant m \<longrightarrow>
        (\<exists>items. get_component (class_of c) (add_component_to_entity c entity m) = (items, None)
           \<and> (entity, c) \<in> set items)
        \<and> (\<exists>items. get_components [class_of c] (add_component_to_entity c entity m) = (items, None)
           \<and> (entity, [c]) \<in> set items))"
proof -
  let ?m' = "add_component_to_entity c entity m"
  let ?T = "class_of c"
  have has: "has_component entity ?T ?m' = Inr True"
    by (simp add: has_component_def entities_add_component update_conv')
  have get: "get_component_from_entity ?T entity ?m' = Inr c"
    by (simp add: get_component_from_entity_def entities_add_component update_conv')
  have idx: "in_index ?m' ?T entity" by (simp add: in_index_add_component)
  have q: "(\<exists>items. get_component ?T ?m' = (items, None) \<and> (entity, c) \<in> set items)
        \<and> (\<exists>items. get_components [?T] ?m' = (items, None) \<and> (entity, [c]) \<in> set items)"
    if inv: "ecs_invariant m"
  proof
    have inv': "ecs_invariant ?m'" using inv by (rule ecs_invariant_add_component)
    from get_component_ok [OF inv', of ?T] obtain items where
      items: "get_component ?T ?m' = (items, None)"
        "fst ` set items = {e. in_index ?m' ?T e}"
        "\<forall>(e, d) \<in> set items. get_component_from_entity ?T e ?m' = Inr d" by blast
    from items(2) idx obtain d where d: "(entity, d) \<in> set items" by force
    with items(3) get have "d = c" by auto
    with d items(1)
    show "\<exists>items. get_component ?T ?m' = (items, None) \<and> (entity, c) \<in> set items"
      by blast
    have "components ?m' ?T \<noteq> None" by (simp add: components_add_component)
    then have "\<forall>T \<in> set [?T]. components ?m' T \<noteq> None" by simp
    from get_components_ok [OF inv' _ this] obtain its where
      its: "get_components [?T] ?m' = (its, None)"
        "fst ` set its = {e. \<forall>T \<in> set [?T]. in_index ?m' T e}"
        "\<forall>(e, cs) \<in> set its.
           map Inr cs = map (\<lambda>T. get_component_from_entity T e ?m') [?T]" by blast
    from its(2) idx obtain cs where cs: "(entity, cs) \<in> set its" by force
    with its(3) get have "map Inr cs = [Inr c :: py_error + component]" by auto
    then have "cs = [c]" by (cases cs) auto
    with cs its(1)
    show "\<exists>items. get_components [?T] ?m' = (items, None) \<and> (entity, [c]) \<in> set items"
      by blast
  qed
  have "fst (perform (Op_add_component_to_entity c entity) m) = None" by simp
  with has get q show ?thesis by blast
qed

subsection \<open>Reconciliation and dispatch\<close>

lemma in_row_remove_entity:
  "entities m' = (entities m)(e := None) \<Longrightarrow> in_row m' x T \<longleftrightarrow> in_row m x T \<and> x \<noteq> e"
  by (simp add: in_row_def)

lemma remove_entity_known_invariant:
  assumes inv: "ecs_invariant m" and dicts: "rows_are_dicts m"
    and row: "entities m e = Some r"
  shows "\<exists>m'. remove_entity e True m = (Inr (), m')
           \<and> ecs_invariant m' \<and> rows_are_dicts m'
           \<and> entities m' = (entities m)(e := None)
           \<and> (\<forall>T x. in_index m' T x \<longleftrightarrow> in_index m T x \<and> x \<noteq> e)
           \<and> systems m' = systems m \<and> next_entity_id m' = next_entity_id m
           \<and> dead_entities m' = dead_entities m \<and> sys_Manager m' = sys_Manager m"
proof -
  from remove_entity_known [OF assms] obtain m' where
    m': "remove_entity e True m = (Inr (), m')"
      "entities m' = (entities m)(e := None)"
      "\<forall>T x. in_index m' T x \<longleftrightarrow> in_index m T x \<and> x \<noteq> e"
      "\<forall>T. components m' T \<noteq> Some []"
      "systems m' = systems m" "next_entity_id m' = next_entity_id m"
      "dead_entities m' = dead_entities m" "sys_Manager m' = sys_Manager m"
    by blast
  have "ecs_invariant m'"
    using inv m'(3,4) in_row_remove_entity [OF m'(2)] by (simp add: ecs_invariant_def)
  moreover have "rows_are_dicts m'"
    using dicts m'(2) by (simp add: rows_are_dicts_def)
  ultimately show ?thesis using m' by blast
qed

lemma remove_dead_ok:
  assumes "ecs_invariant m" and "rows_are_dicts m" and "distinct es"
    and "\<forall>e \<in> set es. entities m e \<noteq> None"
  shows "\<exists>m'. remove_dead es m = (Inr (), m')
           \<and> ecs_invariant m' \<and> rows_are_dicts m'
           \<and> (\<forall>x. entities m' x = (if x \<in> set es then None else entities m x))
           \<and> (\<forall>T x. in_index m' T x \<longleftrightarrow> in_index m T x \<and> x \<notin> set es)
           \<and> systems m' = systems m \<and> next_entity_id m' = next_entity_id m
           \<and> dead_entities m' = dead_entities m \<and> sys_Manager m' = sys_Manager m"
  using assms
proof (induction es arbitrary: m)
  case Nil
  then show ?case by simp
next
  case (Cons e es)
  from Cons.prems(4) obtain r where r: "entities m e = Some r" by auto
  from remove_entity_known_invariant [OF Cons.prems(1,2) r] obtain m1 where
    m1: "remove_entity e True m = (Inr (), m1)" "ecs_invariant m1" "rows_are_dicts m1"
      "entities m1 = (entities m)(e := None)"
      "\<forall>T x. in_index m1 T x \<longleftrightarrow> in_index m T x \<and> x \<noteq> e"
      "systems m1 = systems m" "next_entity_id m1 = next_entity_id m"
      "dead_entities m1 = dead_entities m" "sys_Manager m1 = sys_Manager m"
    by blast
  have "distinct es" and "e \<notin> set es" using Cons.prems(3) by simp_all
  moreover have "\<forall>x \<in> set es. entities m1 x \<noteq> None"
    using Cons.prems(4) m1(4) \<open>e \<notin> set es\<close> by auto
  ultimately obtain m' where
    m': "remove_dead es m1 = (Inr (), m')" "ecs_invariant m'" "rows_are_dicts m'"
      "\<forall>x. entities m' x = (if x \<in> set es then None else entities m1 x)"
      "\<forall>T x. in_index m' T x \<longleftrightarrow> in_index m1 T x \<and> x \<notin> set es"
      "systems m' = systems m1" "next_entity_id m' = next_entity_id m1"
      "dead_entities m' = dead_entities m1" "sys_Manager m' = sys_Manager m1"
    using Cons.IH [OF m1(2,3)] by blast
  have "remove_dead (e # es) m = (Inr (), m')" using m1(1) m'(1) by simp
  moreover have "\<forall>x. entities m' x = (if x \<in> set (e # es) then None else entities m x)"
    using m'(4) m1(4) by simp
  moreover have "\<forall>T x. in_index m' T x \<longleftrightarrow> in_index m T x \<and> x \<notin> set (e # es)"
    using m'(5) m1(5) by auto
  ultimately show ?case using m' m1 by simp
qed

lemma remove_dead_any:
  assumes "ecs_invariant m" and "rows_are_dicts m" and "remove_dead es m = (res, m')"
  shows "ecs_invariant m' \<and> rows_are_dicts m'
           \<and> (\<forall>x. entities m x = None \<longrightarrow> entities m' x = None)
           \<and> (\<forall>T x. in_index m' T x \<longrightarrow> in_index m T x)
           \<and> (res = Inr () \<longrightarrow> (\<forall>e \<in> set es. entities m' e = None))
           \<and> systems m' = systems m \<and> next_entity_id m' = next_entity_id m
           \<and> dead_entities m' = dead_entities m \<and> sys_Manager m' = sys_Manager m"
  using assms
proof (induction es arbitrary: m)
  case Nil
  then show ?case by simp
next
  case (Cons e es)
  show ?case
  proof (cases "entities m e")
    case None
    with Cons.prems show ?thesis by (auto simp: remove_entity_unknown)
  next
    case (Some r)
    from remove_entity_known_invariant [OF Cons.prems(1,2) Some] obtain m1 where
      m1: "remove_entity e True m = (Inr (), m1)" "ecs_invariant m1" "rows_are_dicts m1"
        "entities m1 = (entities m)(e := None)"
        "\<forall>T x. in_index m1 T x \<longleftrightarrow> in_index m T x \<and> x \<noteq> e"
        "systems m1 = systems m" "next_entity_id m1 = next_entity_id m"
        "dead_entities m1 = dead_entities m" "sys_Manager m1 = sys_Manager m"
      by blast
    from Cons.prems(3) m1(1) have "remove_dead es m1 = (res, m')" by simp
    from Cons.IH [OF m1(2,3) this] have
      m': "ecs_invariant m'" "rows_are_dicts m'"
        "\<forall>x. entities m1 x = None \<longrightarrow> entities m' x = None"
        "\<forall>T x. in_index m' T x \<longrightarrow> in_index m1 T x"
        "res = Inr () \<longrightarrow> (\<forall>e \<in> set es. entities m' e = None)"
        "systems m' = systems m1" "next_entity_id m' = next_entity_id m1"
        "dead_entities m' = dead_entities m1" "sys_Manager m' = sys_Manager m1"
      by blast+
    have "entities m' e = None" using m'(3) m1(4) by simp
    then show ?thesis using m' m1 by auto
  qed
qed

lemma dispatch_preserves:
  assumes run: "dispatch proc args i m = Some y" and start: "Q m"
    and step: "\<And>s a w. Q w \<Longrightarrow> Q (snd (proc s a w))"
  shows "Q (snd y)"
proof -
  have "Q m \<longrightarrow> (\<forall>s a w. Q w \<longrightarrow> Q (snd (proc s a w))) \<longrightarrow> Q (snd y)"
  proof (rule dispatch.raw_induct
      [where P = "\<lambda>p a i m y. Q m \<longrightarrow> (\<forall>s a w. Q w \<longrightarrow> Q (snd (p s a w))) \<longrightarrow> Q (snd y)",
        OF _ run])
    fix d p a j w z
    assume IH: "\<And>p a i m y. d p a i m = Some y \<Longrightarrow>
        Q m \<longrightarrow> (\<forall>s a w. Q w \<longrightarrow> Q (snd (p s a w))) \<longrightarrow> Q (snd y)"
      and eq: "(if j < length (systems w)
          then case p (systems w ! j) a w of
                 (Inl err, m') \<Rightarrow> Some (Inl err, m')
               | (Inr u, m') \<Rightarrow> d p a (Suc j) m'
          else Some (Inr (), w)) = Some z"
    show "Q w \<longrightarrow> (\<forall>s a w. Q w \<longrightarrow> Q (snd (p s a w))) \<longrightarrow> Q (snd z)"
    proof (intro impI)
      assume Qw: "Q w" and st: "\<forall>s a w. Q w \<longrightarrow> Q (snd (p s a w))"
      show "Q (snd z)"
      proof (cases "j < length (systems w)")
        case False
        with eq have "z = (Inr (), w)" by simp
        with Qw show ?thesis by simp
      next
        case True
        obtain r w' where pr: "p (systems w ! j) a w = (r, w')"
          by (cases "p (systems w ! j) a w")
        from st Qw have "Q (snd (p (systems w ! j) a w))" by blast
        with pr have Qw': "Q w'" by simp
        show ?thesis
        proof (cases r)
          case (Inl err)
          with eq True pr have "z = (Inl err, w')" by simp
          with Qw' show ?thesis by simp
        next
          case (Inr u)
          with eq True pr have "d p a (Suc j) w' = Some z" by simp
          then have "Q w' \<longrightarrow> (\<forall>s a w. Q w \<longrightarrow> Q (snd (p s a w))) \<longrightarrow> Q (snd z)"
            by (rule IH)
          from this Qw' have "(\<forall>s a w. Q w \<longrightarrow> Q (snd (p s a w))) \<longrightarrow> Q (snd z)"
            by (rule mp)
          from this st show ?thesis by (rule mp)
        qed
      qed
    qed
  qed
  from this start have "(\<forall>s a w. Q w \<longrightarrow> Q (snd (proc s a w))) \<longrightarrow> Q (snd y)"
    by (rule mp)
  moreover have "\<forall>s a w. Q w \<longrightarrow> Q (snd (proc s a w))"
    using step by simp
  ultimately show ?thesis by (rule mp)
qed

lemma dispatch_spec:
  assumes keep: "\<And>s a w. systems (snd (proc s a w)) = systems w"
  shows "dispatch proc args i m = Some (spec_dispatch proc args (drop i (systems m)) m)"
proof (induction "length (systems m) - i" arbitrary: i m)
  case 0
  then have "\<not> i < length (systems m)" by simp
  then show ?case by (subst dispatch.simps) simp
next
  case (Suc n)
  then have less: "i < length (systems m)" by simp
  obtain r m' where pr: "proc (systems m ! i) args m = (r, m')"
    by (cases "proc (systems m ! i) args m")
  from keep [of "systems m ! i" args m] pr have same: "systems m' = systems m" by simp
  have dr: "drop i (systems m) = systems m ! i # drop (Suc i) (systems m)"
    using less by (simp add: Cons_nth_drop_Suc)
  show ?case
  proof (cases r)
    case (Inl err)
    with pr less dr show ?thesis by (subst dispatch.simps) simp
  next
    case (Inr u)
    from Suc.hyps(2) same have "n = length (systems m') - Suc i" by simp
    from Suc.hyps(1) [OF this]
    have "dispatch proc args (Suc i) m'
        = Some (spec_dispatch proc args (drop (Suc i) (systems m)) m')"
      using same by simp
    with Inr pr less dr show ?thesis by (subst dispatch.simps) simp
  qed
qed

subsection \<open>Every operation but process: invariant and errors\<close>

lemma ecs_invariant_cong:
  "components m' = components m \<Longrightarrow> entities m' = entities m \<Longrightarrow>
     ecs_invariant m' = ecs_invariant m"
  by (simp add: ecs_invariant_def in_index_def in_row_def)

lemma rows_are_dicts_cong:
  "entities m' = entities m \<Longrightarrow> rows_are_dicts m' = rows_are_dicts m"
  by (simp add: rows_are_dicts_def)

lemma remove_system_loop_fields:
  "components (remove_system_loop t i m) = components m
   \<and> entities (remove_system_loop t i m) = entities m
   \<and> next_entity_id (remove_system_loop t i m) = next_entity_id m
   \<and> dead_entities (remove_system_loop t i m) = dead_entities m"
proof (induction t i m rule: remove_system_loop.induct)
  case (1 t i m)
  show ?case
  proof (cases "i < length (systems m)")
    case False
    then show ?thesis by (subst (1 2 3 4) remove_system_loop.simps) simp
  next
    case True
    show ?thesis
    proof (cases "cls (systems m ! i) = t")
      case yes: True
      from "1.IH"(1) [OF True refl yes] True yes show ?thesis
        by (subst (1 2 3 4) remove_system_loop.simps) (simp add: Let_def)
    next
      case no: False
      from "1.IH"(2) [OF True refl no] True no show ?thesis
        by (subst (1 2 3 4) remove_system_loop.simps) (simp add: Let_def)
    qed
  qed
qed

lemma remove_component_preserves:
  assumes inv: "ecs_invariant m" and dicts: "rows_are_dicts m"
  shows "ecs_invariant (snd (remove_component_from_entity T e m))
       \<and> rows_are_dicts (snd (remove_component_from_entity T e m))"
proof (cases "remove_component_from_entity T e m")
  case (Pair res m')
  show ?thesis
  proof (cases res)
    case (Inl err)
    with Pair inv have "m' = m" by (auto dest: remove_component_error_unchanged)
    with Pair assms show ?thesis by simp
  next
    case (Inr u)
    with Pair have ok: "remove_component_from_entity T e m = (Inr u, m')" by simp
    have ne: "\<forall>T'. components m' T' \<noteq> Some []"
      using ok inv
      by (auto simp: remove_component_from_entity_def Let_def ecs_invariant_def
          split: option.splits if_splits)
    have "rows_are_dicts m'"
      using ok dicts
      by (auto simp: remove_component_from_entity_def Let_def rows_are_dicts_def distinct_delete
          split: option.splits if_splits)
    moreover have "ecs_invariant m'"
      using inv ne in_index_remove_component [OF ok] in_row_remove_component [OF ok]
      by (simp add: ecs_invariant_def)
    ultimately show ?thesis using Pair by simp
  qed
qed

lemma remove_entity_preserves:
  assumes inv: "ecs_invariant m" and dicts: "rows_are_dicts m"
  shows "ecs_invariant (snd (remove_entity e b m)) \<and> rows_are_dicts (snd (remove_entity e b m))"
proof (cases b)
  case False
  have "ecs_invariant (m\<lparr>dead_entities := set_add e (dead_entities m)\<rparr>) = ecs_invariant m"
    by (rule ecs_invariant_cong) simp_all
  moreover have "rows_are_dicts (m\<lparr>dead_entities := set_add e (dead_entities m)\<rparr>)
      = rows_are_dicts m"
    by (rule rows_are_dicts_cong) simp
  ultimately show ?thesis using False assms by (simp add: remove_entity_def)
next
  case True
  show ?thesis
  proof (cases "entities m e")
    case None
    with True assms show ?thesis by (simp add: remove_entity_unknown)
  next
    case (Some r)
    from remove_entity_known_invariant [OF inv dicts Some] True show ?thesis by auto
  qed
qed

lemma clear_database_invariant:
  "ecs_invariant (clear_database m) \<and> rows_are_dicts (clear_database m)"
  by (simp add: clear_database_def ecs_invariant_def rows_are_dicts_def in_index_def in_row_def)

lemma perform_preserves_invariant:
  assumes inv: "ecs_invariant m" and dicts: "rows_are_dicts m"
    and fresh: "\<And>cs. op = Op_new_entity cs \<Longrightarrow> entities m (next_entity_id m + 1) = None"
  shows "ecs_invariant (snd (perform op m)) \<and> rows_are_dicts (snd (perform op m))"
proof (cases op)
  case Op_clear_database
  then show ?thesis by (simp add: clear_database_invariant)
next
  case (Op_add_system s)
  have "ecs_invariant (snd (add_system s m)) = ecs_invariant m"
    by (rule ecs_invariant_cong) (simp_all add: add_system_def)
  moreover have "rows_are_dicts (snd (add_system s m)) = rows_are_dicts m"
    by (rule rows_are_dicts_cong) (simp add: add_system_def)
  ultimately show ?thesis using Op_add_system assms by simp
next
  case (Op_remove_system t)
  have "ecs_invariant (remove_system t m) = ecs_invariant m"
    by (rule ecs_invariant_cong) (simp_all add: remove_system_def remove_system_loop_fields)
  moreover have "rows_are_dicts (remove_system t m) = rows_are_dicts m"
    by (rule rows_are_dicts_cong) (simp add: remove_system_def remove_system_loop_fields)
  ultimately show ?thesis using Op_remove_system assms by simp
next
  case (Op_new_entity cs)
  with fresh have "entities m (next_entity_id m + 1) = None" by simp
  with Op_new_entity inv dicts show ?thesis
    by (simp add: ecs_invariant_new_entity rows_are_dicts_new_entity)
next
  case (Op_remove_entity e b)
  then show ?thesis using remove_entity_preserves [OF inv dicts] by simp
next
  case (Op_add_component_to_entity c e)
  then show ?thesis
    using assms by (simp add: ecs_invariant_add_component rows_are_dicts_add_component)
next
  case (Op_remove_component_from_entity t e)
  then show ?thesis using remove_component_preserves [OF inv dicts] by simp
qed (use assms in simp_all)

lemma perform_error_unchanged:
  assumes inv: "ecs_invariant m" and dicts: "rows_are_dicts m"
    and err: "perform op m = (Some err, m')"
  shows "m' = m"
proof (cases op)
  case (Op_add_system s)
  with err show ?thesis by (auto simp: add_system_def raised_def split: if_splits)
next
  case (Op_remove_entity e b)
  show ?thesis
  proof (cases "b \<and> entities m e \<noteq> None")
    case True
    then obtain r where "entities m e = Some r" by auto
    from remove_entity_known [OF inv dicts this] True
    have "fst (remove_entity e b m) = Inr ()" by auto
    with err Op_remove_entity show ?thesis by (simp add: raised_def)
  next
    case False
    with err Op_remove_entity show ?thesis
      by (cases b) (auto simp: remove_entity_def raised_def)
  qed
next
  case (Op_remove_component_from_entity t e)
  obtain res m1 where r: "remove_component_from_entity t e m = (res, m1)"
    by (cases "remove_component_from_entity t e m")
  with err Op_remove_component_from_entity obtain e' where "res = Inl e'" and "m1 = m'"
    by (cases res) (auto simp: raised_def)
  with r inv show ?thesis by (auto dest: remove_component_error_unchanged)
qed (use err in auto)

subsection \<open>The example states\<close>

lemma registered_eval:
  "registered = \<lparr>systems = [movement1, render2], next_entity_id = 0, components = Map.empty,
      entities = Map.empty, dead_entities = [],
      sys_Manager = (\<lambda>_. False)(1 := True, 2 := True)\<rparr>"
  by (simp add: registered_def add_system_def init_def movement1_def render2_def)

lemma pending_one_eval:
  "pending_one = \<lparr>systems = [movement1, render2], next_entity_id = 1,
      components = [''Position'' \<mapsto> [1]],
      entities = [1 \<mapsto> [(''Position'', position)]], dead_entities = [1],
      sys_Manager = (\<lambda>_. False)(1 := True, 2 := True)\<rparr>"
  by (simp add: pending_one_def one_live_def registered_eval new_entity_eval add_component_eval
      remove_entity_def set_add_def position_def)

lemma pending_rowless_eval:
  "pending_rowless = \<lparr>systems = [movement1, render2], next_entity_id = 1,
      components = Map.empty, entities = Map.empty, dead_entities = [1],
      sys_Manager = (\<lambda>_. False)(1 := True, 2 := True)\<rparr>"
  by (simp add: pending_rowless_def pending_one_eval remove_component_from_entity_def
      set_discard_def position_def Let_def)

lemma pending_unknown_eval:
  "pending_unknown = \<lparr>systems = [movement1, render2], next_entity_id = 1,
      components = [''Position'' \<mapsto> [1]],
      entities = [1 \<mapsto> [(''Position'', position)]], dead_entities = [1, 2],
      sys_Manager = (\<lambda>_. False)(1 := True, 2 := True)\<rparr>"
  by (simp add: pending_unknown_def pending_one_eval remove_entity_def set_add_def)

lemma destroyed_while_pending_eval:
  "destroyed_while_pending = \<lparr>systems = [], next_entity_id = 2,
      components = [''Position'' \<mapsto> [2]],
      entities = [2 \<mapsto> [(''Position'', position)]], dead_entities = [1],
      sys_Manager = (\<lambda>_. False)\<rparr>"
  by (simp add: destroyed_while_pending_def init_def new_entity_eval add_component_eval
      remove_entity_def set_add_def set_discard_def position_def Let_def)

lemma attached_early_eval:
  "attached_early = \<lparr>systems = [], next_entity_id = 0,
      components = [''Position'' \<mapsto> [1]],
      entities = [1 \<mapsto> [(''Position'', position)]], dead_entities = [],
      sys_Manager = (\<lambda>_. False)\<rparr>"
  by (simp add: attached_early_def init_def add_component_eval set_add_def position_def)

lemma rows_are_dicts_two_entities: "rows_are_dicts two_entities"
  unfolding two_entities_def
  by (intro rows_are_dicts_new_entity rows_are_dicts_init)

subsection \<open>The invariant and new_entity\<close>

text \<open>
  C3. The claim: every Manager operation preserves the consistency of index and table
  (an entity is in the index set of a type exactly when its row has that type as a key;
  no index set is empty). Every operation but one does, in every outcome (lemma
  \<open>perform_preserves_invariant\<close>). \<open>new_entity\<close> assigns an empty row to the identifier
  it allocates without looking whether that identifier has a row already, as
  \<open>add_component_to_entity\<close> does before it creates one. On a fresh Manager, attach a
  Position to the id 1 and then call \<open>new_entity()\<close>: it returns 1 and replaces the row,
  so 1 stays in the index set of Position while its row has no Position, and the
  iteration of \<open>get_component(Position)\<close> raises \<open>KeyError\<close>.
\<close>

theorem new_entity_breaks_invariant:
  "ecs_invariant attached_early
   \<and> fst (new_entity [] attached_early) = 1
   \<and> \<not> ecs_invariant (snd (new_entity [] attached_early))
   \<and> in_index (snd (new_entity [] attached_early)) ''Position'' 1
   \<and> \<not> in_row (snd (new_entity [] attached_early)) 1 ''Position''
   \<and> get_component ''Position'' (snd (new_entity [] attached_early)) = ([], Some KeyError)"
proof -
  have inv: "ecs_invariant attached_early"
    unfolding attached_early_def by (rule ecs_invariant_add_component [OF ecs_invariant_init])
  have idx: "in_index (snd (new_entity [] attached_early)) ''Position'' 1"
    by (simp add: in_index_def new_entity_eval attached_early_eval)
  have row: "\<not> in_row (snd (new_entity [] attached_early)) 1 ''Position''"
    by (simp add: in_row_def new_entity_eval attached_early_eval)
  from idx row have "\<not> ecs_invariant (snd (new_entity [] attached_early))"
    by (auto simp: ecs_invariant_def)
  moreover have "fst (new_entity [] attached_early) = 1"
    by (simp add: new_entity_eval attached_early_eval)
  moreover have "get_component ''Position'' (snd (new_entity [] attached_early))
      = ([], Some KeyError)"
    by (simp add: get_component_def get_component_from_entity_def new_entity_eval
        attached_early_eval)
  ultimately show ?thesis using inv idx row by blast
qed

lemma overwritten_eval:
  "overwritten = \<lparr>systems = [], next_entity_id = 1,
      components = [''Position'' \<mapsto> [1]],
      entities = [1 \<mapsto> []], dead_entities = [],
      sys_Manager = (\<lambda>_. False)\<rparr>"
  by (simp add: overwritten_def new_entity_eval attached_early_eval)

lemma overwritten_two_eval:
  "overwritten_two = \<lparr>systems = [], next_entity_id = 1,
      components = [''Position'' \<mapsto> [1], ''Velocity'' \<mapsto> [1]],
      entities = [1 \<mapsto> []], dead_entities = [],
      sys_Manager = (\<lambda>_. False)\<rparr>"
  by (simp add: overwritten_two_def attached_two_early_def new_entity_eval attached_early_eval
      add_component_eval velocity_def set_add_def)

text \<open>
  C4. The claim: for component types that all have an index, \<open>get_components\<close> yields
  exactly the entities in the intersection of their index sets. In a state that
  satisfies the consistency invariant it does (lemma \<open>get_components_ok\<close>). On a
  fresh Manager, attach a Position and a Velocity to the id 1 and call \<open>new_entity()\<close>:
  it returns 1 and replaces the row, as shown above. Both index sets are {1} and so is
  their intersection, but \<open>get_components(Position, Velocity)\<close> yields nothing: the
  lookup of the instances raises the \<open>KeyError\<close> that the generator swallows.
\<close>

theorem get_components_omits_index_member:
  "fst (new_entity [] attached_two_early) = 1
   \<and> lookup_indexes [''Position'', ''Velocity''] overwritten_two = Inr [[1], [1]]
   \<and> set_intersection [1] [[1]] = [1]
   \<and> get_components [''Position'', ''Velocity''] overwritten_two = ([], None)
   \<and> get_components [''Position''] overwritten_two = ([], None)"
  by (simp add: overwritten_two_eval get_components_def set_intersection_def
      get_component_from_entity_def new_entity_id attached_two_early_def attached_early_eval
      add_component_eval)

text \<open>
  C10. The claim: after \<open>add_component_to_entity\<close> the id appears in the query results
  for that type. In a state that satisfied the consistency invariant it does (lemma
  \<open>add_component_consistent\<close>). In the state that \<open>new_entity\<close> left above, with the id
  1 in the index set of Position and an empty row, attach a Position to the id 2:
  \<open>has_component(2, Position)\<close> is true and the index set is {1, 2}, but the
  iteration of \<open>get_component(Position)\<close> raises \<open>KeyError\<close> at 1 before it yields 2,
  and \<open>get_components(Position)\<close> yields nothing.
\<close>

theorem added_entity_not_yielded:
  "has_component 2 ''Position''
     (add_component_to_entity (Component ''Position'' 5) 2 overwritten) = Inr True
   \<and> components (add_component_to_entity (Component ''Position'' 5) 2 overwritten) ''Position''
       = Some [1, 2]
   \<and> get_component ''Position'' (add_component_to_entity (Component ''Position'' 5) 2 overwritten)
       = ([], Some KeyError)
   \<and> get_components [''Position'']
       (add_component_to_entity (Component ''Position'' 5) 2 overwritten) = ([], None)"
  by (simp add: overwritten_eval add_component_eval set_add_def has_component_def
      get_component_def get_components_def set_intersection_def get_component_from_entity_def)

subsection \<open>Errors and the state they leave\<close>

text \<open>
  C9, as claimed: whenever an operation raises, the Manager state is what it was before
  the call. \<open>process\<close> refutes it twice. With the pending set {1, 2}, entity 1 live and
  the id 2 never created, it removes entity 1 and then raises \<open>KeyError\<close> at 2. With
  the pending set {1} and a system whose \<open>process\<close> raises, it removes entity 1,
  empties the pending set and then lets the system's exception through.
\<close>

theorem tick_not_atomic:
  "process idle () pending_unknown
     = Some (Inl KeyError, pending_unknown\<lparr>components := Map.empty, entities := Map.empty\<rparr>)
   \<and> entities pending_unknown 1 = Some [(''Position'', position)]
   \<and> process failing () pending_one
     = Some (Inl (Exception ''boom''),
             pending_one\<lparr>components := Map.empty, entities := Map.empty, dead_entities := []\<rparr>)
   \<and> entities pending_one 1 = Some [(''Position'', position)]"
proof -
  have "process idle () pending_unknown
     = Some (Inl KeyError, pending_unknown\<lparr>components := Map.empty, entities := Map.empty\<rparr>)"
    by (simp add: process_def reconcile_def remove_entity_def set_discard_def
        pending_unknown_eval)
  moreover have "reconcile pending_one
     = (Inr (), pending_one\<lparr>components := Map.empty, entities := Map.empty,
                              dead_entities := []\<rparr>)"
    by (simp add: reconcile_def remove_entity_def set_discard_def pending_one_eval)
  then have "process failing () pending_one
     = Some (Inl (Exception ''boom''),
             pending_one\<lparr>components := Map.empty, entities := Map.empty, dead_entities := []\<rparr>)"
    by (simp add: process_def pending_one_eval dispatch.simps [of _ _ 0] failing_def)
  ultimately show ?thesis by (simp add: pending_unknown_eval pending_one_eval)
qed

text \<open>
  C9, amended: for every Manager operation other than \<open>process\<close>, called in a state that
  satisfies the consistency invariant (and whose rows are dicts), if the operation
  raises then the state (entity table, index, pending set, system registry, counter,
  back-references) is exactly what it was before the call.
\<close>

theorem operations_atomic_on_error:
  assumes "ecs_invariant m" and "rows_are_dicts m" and "perform op m = (Some err, m')"
  shows "m' = m"
  using assms by (rule perform_error_unchanged)

theorem operations_atomic_on_error_witness:
  "ecs_invariant two_entities \<and> rows_are_dicts two_entities
   \<and> perform (Op_remove_component_from_entity ''Velocity'' 2) two_entities
       = (Some KeyError, two_entities)
   \<and> perform (Op_remove_entity 7 True) two_entities = (Some KeyError, two_entities)"
proof -
  have a: "fst (perform (Op_remove_component_from_entity ''Velocity'' 2) two_entities)
      = Some KeyError"
    by (simp add: remove_component_from_entity_def set_discard_def raised_def
        two_entities_eval Let_def position_def)
  have b: "fst (perform (Op_remove_entity 7 True) two_entities) = Some KeyError"
    by (simp add: remove_entity_def raised_def two_entities_eval)
  from a have "perform (Op_remove_component_from_entity ''Velocity'' 2) two_entities
      = (Some KeyError, snd (perform (Op_remove_component_from_entity ''Velocity'' 2) two_entities))"
    by (simp add: prod_eq_iff)
  from operations_atomic_on_error
    [OF ecs_invariant_two_entities rows_are_dicts_two_entities this]
  have a': "perform (Op_remove_component_from_entity ''Velocity'' 2) two_entities
      = (Some KeyError, two_entities)"
    using a by (simp add: prod_eq_iff)
  from b have "perform (Op_remove_entity 7 True) two_entities
      = (Some KeyError, snd (perform (Op_remove_entity 7 True) two_entities))"
    by (simp add: prod_eq_iff)
  from operations_atomic_on_error
    [OF ecs_invariant_two_entities rows_are_dicts_two_entities this]
  have b': "perform (Op_remove_entity 7 True) two_entities = (Some KeyError, two_entities)"
    using b by (simp add: prod_eq_iff)
  from a' b' ecs_invariant_two_entities rows_are_dicts_two_entities show ?thesis by blast
qed

subsection \<open>process: reconciliation, then dispatch\<close>

lemma spec_dispatch_no_raise:
  assumes "\<And>s a w. fst (proc s a w) = Inr ()"
  shows "spec_dispatch proc args ss m = (Inr (), fold (\<lambda>s w. snd (proc s args w)) ss m)"
proof (induction ss arbitrary: m)
  case Nil
  show ?case by simp
next
  case (Cons s ss)
  obtain r m' where pr: "proc s args m = (r, m')" by (cases "proc s args m")
  with assms [of s args m] have "r = Inr ()" by simp
  with pr Cons show ?case by simp
qed

lemma absent_cong:
  "components m' = components m \<Longrightarrow> entities m' = entities m \<Longrightarrow> absent m' e = absent m e"
  by (simp add: absent_def in_index_def)

lemma reconcile_ok:
  assumes inv: "ecs_invariant m" and dicts: "rows_are_dicts m"
    and dist: "distinct (dead_entities m)"
    and rows: "\<forall>e \<in> set (dead_entities m). entities m e \<noteq> None"
  shows "\<exists>m1. reconcile m = (Inr (), m1) \<and> ecs_invariant m1 \<and> rows_are_dicts m1
           \<and> dead_entities m1 = [] \<and> (\<forall>e \<in> set (dead_entities m). absent m1 e)
           \<and> systems m1 = systems m \<and> next_entity_id m1 = next_entity_id m
           \<and> sys_Manager m1 = sys_Manager m"
proof (cases "dead_entities m = []")
  case True
  with assms show ?thesis by (simp add: reconcile_def)
next
  case False
  from remove_dead_ok [OF inv dicts dist rows] obtain m' where
    m': "remove_dead (dead_entities m) m = (Inr (), m')" "ecs_invariant m'" "rows_are_dicts m'"
      "\<forall>x. entities m' x = (if x \<in> set (dead_entities m) then None else entities m x)"
      "\<forall>T x. in_index m' T x \<longleftrightarrow> in_index m T x \<and> x \<notin> set (dead_entities m)"
      "systems m' = systems m" "next_entity_id m' = next_entity_id m"
      "sys_Manager m' = sys_Manager m"
    by blast
  let ?m1 = "m'\<lparr>dead_entities := []\<rparr>"
  have "reconcile m = (Inr (), ?m1)" using False m'(1) by (simp add: reconcile_def)
  moreover have "ecs_invariant ?m1"
    using m'(2) ecs_invariant_cong [of ?m1 m'] by simp
  moreover have "rows_are_dicts ?m1"
    using m'(3) rows_are_dicts_cong [of ?m1 m'] by simp
  moreover have "\<forall>e \<in> set (dead_entities m). absent m' e"
    using m'(4,5) by (simp add: absent_def)
  then have "\<forall>e \<in> set (dead_entities m). absent ?m1 e"
    using absent_cong [of ?m1 m'] by simp
  ultimately show ?thesis using m'(6,7,8) by simp
qed

lemma ecs_invariant_pending_one: "ecs_invariant pending_one"
  by (auto simp: ecs_invariant_def in_index_def in_row_def pending_one_eval
      split: if_splits option.splits)

lemma rows_are_dicts_pending_one: "rows_are_dicts pending_one"
  by (auto simp: rows_are_dicts_def pending_one_eval split: if_splits)

text \<open>
  C7, as claimed: every call to \<open>process\<close> destroys the pending entities, empties the
  pending set and then calls \<open>process\<close> once on each registered system. Entity 1 is
  marked for deferred removal and then loses its only component, and with it its row:
  the next \<open>process\<close> raises \<open>KeyError\<close> in the reconciliation, the pending set still
  holds 1, and no system has run (a run of the first system would have moved the
  identifier counter).
\<close>

theorem tick_raises_before_dispatch:
  "process spawner () pending_rowless = Some (Inl KeyError, pending_rowless)
   \<and> dead_entities pending_rowless = [1]
   \<and> systems pending_rowless = [movement1, render2]
   \<and> next_entity_id (snd (spawner movement1 () pending_rowless))
       \<noteq> next_entity_id pending_rowless"
  by (simp add: process_def reconcile_def remove_entity_def pending_rowless_eval
      spawner_def new_entity_id)

lemma remove_entity_loop_error:
  "remove_entity_loop e ts m = (Inl err, m') \<Longrightarrow> err = KeyError"
proof (induction ts arbitrary: m)
  case Nil
  then show ?case by simp
next
  case (Cons t ts)
  show ?case
  proof (cases "components m t")
    case None
    with Cons.prems show ?thesis by simp
  next
    case (Some s)
    let ?m1 = "m\<lparr>components := (components m)(t \<mapsto> set_discard e s)\<rparr>"
    let ?m2 = "if set_discard e s = []
               then ?m1\<lparr>components := (components ?m1)(t := None)\<rparr> else ?m1"
    from Cons.prems Some have "remove_entity_loop e ts ?m2 = (Inl err, m')"
      by (simp add: Let_def)
    then show ?thesis by (rule Cons.IH)
  qed
qed

lemma remove_entity_now_any:
  assumes "remove_entity e True m = (res, m')"
  shows "(res = Inr () \<or> res = Inl KeyError)
       \<and> (\<forall>x. entities m x = None \<longrightarrow> entities m' x = None)
       \<and> dead_entities m' = dead_entities m \<and> systems m' = systems m"
proof (cases "entities m e")
  case None
  with assms show ?thesis by (simp add: remove_entity_def)
next
  case (Some r)
  obtain lr m1 where loop: "remove_entity_loop e (map fst r) m = (lr, m1)"
    by (cases "remove_entity_loop e (map fst r) m")
  note f = remove_entity_loop_fields [OF loop]
  show ?thesis
  proof (cases lr)
    case (Inl err)
    with loop have "err = KeyError" by (auto dest: remove_entity_loop_error)
    with assms Some loop Inl f show ?thesis by (simp add: remove_entity_def)
  next
    case (Inr u)
    with assms Some loop f show ?thesis
      by (auto simp: remove_entity_def split: option.splits)
  qed
qed

lemma remove_dead_rowless:
  assumes "x \<in> set es" and "entities m x = None"
  shows "\<exists>m'. remove_dead es m = (Inl KeyError, m')
           \<and> dead_entities m' = dead_entities m \<and> systems m' = systems m"
  using assms
proof (induction es arbitrary: m)
  case Nil
  then show ?case by simp
next
  case (Cons e es)
  obtain res m1 where r: "remove_entity e True m = (res, m1)"
    by (cases "remove_entity e True m")
  from remove_entity_now_any [OF r] have
    any: "res = Inr () \<or> res = Inl KeyError"
      "\<forall>y. entities m y = None \<longrightarrow> entities m1 y = None"
      "dead_entities m1 = dead_entities m" "systems m1 = systems m"
    by blast+
  show ?case
  proof (cases res)
    case (Inl err)
    with any(1) have "res = Inl KeyError" by auto
    with r any(3,4) show ?thesis by simp
  next
    case (Inr u)
    have "x \<noteq> e"
    proof
      assume "x = e"
      with Cons.prems(2) have "remove_entity e True m = (Inl KeyError, m)"
        by (simp add: remove_entity_unknown)
      with r Inr show False by simp
    qed
    with Cons.prems(1) have "x \<in> set es" by simp
    moreover from any(2) Cons.prems(2) have "entities m1 x = None" by simp
    ultimately obtain m' where "remove_dead es m1 = (Inl KeyError, m')"
      "dead_entities m' = dead_entities m1" "systems m' = systems m1"
      using Cons.IH by blast
    with r Inr any(3,4) show ?thesis by simp
  qed
qed

lemma process_rowless:
  assumes "x \<in> set (dead_entities m)" and "entities m x = None"
  shows "\<exists>m'. reconcile m = (Inl KeyError, m') \<and> process proc args m = Some (Inl KeyError, m')
           \<and> dead_entities m' = dead_entities m \<and> systems m' = systems m"
proof -
  from remove_dead_rowless [OF assms] obtain m' where
    m': "remove_dead (dead_entities m) m = (Inl KeyError, m')"
      "dead_entities m' = dead_entities m" "systems m' = systems m" by blast
  from assms(1) have "dead_entities m \<noteq> []" by auto
  with m'(1) have "reconcile m = (Inl KeyError, m')" by (simp add: reconcile_def)
  then show ?thesis using m'(2,3) by (simp add: process_def)
qed

text \<open>
  The loop over \<^verbatim>\<open>self._systems\<close> follows the list as the systems change it. With a
  Movement and a Render system registered, both of a kind whose \<open>process\<close> unregisters
  its own class, one \<open>process\<close> of the Manager runs Movement only: the list shrinks to
  Render at index 0, the running index is 1, the loop ends, and Render is still
  registered.
\<close>

lemma dispatch_follows_changed_registry:
  "systems registered = [movement1, render2]
   \<and> map_option fst (process unregistering () registered) = Some (Inr ())
   \<and> map_option (systems \<circ> snd) (process unregistering () registered) = Some [render2]"
proof -
  let ?X = "remove_system ''Movement'' registered"
  have r: "reconcile registered = (Inr (), registered)"
    by (simp add: reconcile_def registered_eval)
  have u: "unregistering movement1 () registered = (Inr (), ?X)"
    by (simp add: unregistering_def movement1_def)
  have x: "systems ?X = [render2]"
    by (simp add: remove_system_def remove_system_loop.simps registered_eval
        movement1_def render2_def)
  have sr: "systems registered = [movement1, render2]" by (simp add: registered_eval)
  have "dispatch unregistering () 0 registered = dispatch unregistering () (Suc 0) ?X"
    by (subst dispatch.simps) (simp add: sr u)
  also have "\<dots> = Some (Inr (), ?X)"
    by (subst dispatch.simps) (simp add: x)
  finally show ?thesis using r x sr by (simp add: process_def)
qed

text \<open>
  C7, amended. In every state in which some pending id has no row, \<open>process\<close> raises
  \<open>KeyError\<close> in the reconciliation: the state it leaves is the one the reconciliation
  left, whatever the systems are (none has run), with the pending set and the registry
  as before the call. In a state that satisfies the consistency invariant and in which
  every pending id has a row, \<open>process\<close> first removes every pending entity and empties
  the pending set; if moreover no system's \<open>process\<close> changes the registry, it then runs
  the registered systems on the reconciled state, in registration order and with the
  same arguments, up to the first one that raises, and when none raises the call
  returns and has run \<open>process\<close> of every registered system exactly once.
\<close>

theorem tick_reconciles_then_dispatches:
  "((\<exists>e \<in> set (dead_entities m). entities m e = None) \<longrightarrow>
      (\<exists>m'. reconcile m = (Inl KeyError, m')
         \<and> process proc args m = Some (Inl KeyError, m')
         \<and> dead_entities m' = dead_entities m \<and> systems m' = systems m))
   \<and> (ecs_invariant m \<and> rows_are_dicts m \<and> distinct (dead_entities m)
        \<and> (\<forall>e \<in> set (dead_entities m). entities m e \<noteq> None)
        \<and> (\<forall>s a w. systems (snd (proc s a w)) = systems w) \<longrightarrow>
      (\<exists>m1. reconcile m = (Inr (), m1) \<and> dead_entities m1 = []
         \<and> (\<forall>e \<in> set (dead_entities m). absent m1 e)
         \<and> systems m1 = systems m
         \<and> process proc args m = Some (spec_dispatch proc args (systems m) m1)
         \<and> ((\<forall>s a w. fst (proc s a w) = Inr ()) \<longrightarrow>
               process proc args m
                 = Some (Inr (), fold (\<lambda>s w. snd (proc s args w)) (systems m) m1))))"
proof (intro conjI impI)
  assume "\<exists>e \<in> set (dead_entities m). entities m e = None"
  then obtain x where "x \<in> set (dead_entities m)" and "entities m x = None" by blast
  then show "\<exists>m'. reconcile m = (Inl KeyError, m')
         \<and> process proc args m = Some (Inl KeyError, m')
         \<and> dead_entities m' = dead_entities m \<and> systems m' = systems m"
    by (rule process_rowless)
next
  assume hyps: "ecs_invariant m \<and> rows_are_dicts m \<and> distinct (dead_entities m)
        \<and> (\<forall>e \<in> set (dead_entities m). entities m e \<noteq> None)
        \<and> (\<forall>s a w. systems (snd (proc s a w)) = systems w)"
  then have "\<exists>m1. reconcile m = (Inr (), m1) \<and> ecs_invariant m1 \<and> rows_are_dicts m1
           \<and> dead_entities m1 = [] \<and> (\<forall>e \<in> set (dead_entities m). absent m1 e)
           \<and> systems m1 = systems m \<and> next_entity_id m1 = next_entity_id m
           \<and> sys_Manager m1 = sys_Manager m"
    by (intro reconcile_ok) simp_all
  then obtain m1 where
    m1: "reconcile m = (Inr (), m1)" "dead_entities m1 = []"
      "\<forall>e \<in> set (dead_entities m). absent m1 e" "systems m1 = systems m"
    by blast
  have "dispatch proc args 0 m1 = Some (spec_dispatch proc args (drop 0 (systems m1)) m1)"
    using hyps by (intro dispatch_spec) simp
  with m1(1,4) have p: "process proc args m = Some (spec_dispatch proc args (systems m) m1)"
    by (simp add: process_def)
  have "process proc args m = Some (Inr (), fold (\<lambda>s w. snd (proc s args w)) (systems m) m1)"
    if "\<forall>s a w. fst (proc s a w) = Inr ()"
    using p that by (simp add: spec_dispatch_no_raise)
  with m1 p show "\<exists>m1. reconcile m = (Inr (), m1) \<and> dead_entities m1 = []
         \<and> (\<forall>e \<in> set (dead_entities m). absent m1 e)
         \<and> systems m1 = systems m
         \<and> process proc args m = Some (spec_dispatch proc args (systems m) m1)
         \<and> ((\<forall>s a w. fst (proc s a w) = Inr ()) \<longrightarrow>
               process proc args m
                 = Some (Inr (), fold (\<lambda>s w. snd (proc s args w)) (systems m) m1))"
    by blast
qed

theorem tick_reconciles_then_dispatches_witness:
  "reconcile pending_one
     = (Inr (), pending_one\<lparr>components := Map.empty, entities := Map.empty,
                             dead_entities := []\<rparr>)
   \<and> systems pending_one = [movement1, render2]
   \<and> process spawner () pending_one
     = Some (Inr (), snd (spawner render2 () (snd (spawner movement1 ()
         (pending_one\<lparr>components := Map.empty, entities := Map.empty,
                       dead_entities := []\<rparr>)))))
   \<and> next_entity_id (snd (spawner render2 () (snd (spawner movement1 ()
         (pending_one\<lparr>components := Map.empty, entities := Map.empty,
                       dead_entities := []\<rparr>))))) = 3
   \<and> entities pending_unknown 2 = None
   \<and> dead_entities pending_unknown = [1, 2]
   \<and> map_option fst (process spawner () pending_unknown) = Some (Inl KeyError)
   \<and> map_option (dead_entities \<circ> snd) (process spawner () pending_unknown) = Some [1, 2]"
proof -
  have rec: "reconcile pending_one
     = (Inr (), pending_one\<lparr>components := Map.empty, entities := Map.empty,
                             dead_entities := []\<rparr>)"
    by (simp add: reconcile_def remove_entity_def set_discard_def pending_one_eval)
  have sys: "systems pending_one = [movement1, render2]" by (simp add: pending_one_eval)
  have keep: "\<forall>s a w. systems (snd (spawner s a w)) = systems w"
    by (simp add: spawner_def new_entity_eval)
  have noraise: "\<forall>s a w. fst (spawner s a w) = Inr ()" by (simp add: spawner_def)
  have d: "distinct (dead_entities pending_one)"
    and r: "\<forall>e \<in> set (dead_entities pending_one). entities pending_one e \<noteq> None"
    by (simp_all add: pending_one_eval)
  from tick_reconciles_then_dispatches [of pending_one spawner "()"]
    ecs_invariant_pending_one rows_are_dicts_pending_one d r keep rec noraise sys
  have a: "process spawner () pending_one
     = Some (Inr (), snd (spawner render2 () (snd (spawner movement1 ()
         (pending_one\<lparr>components := Map.empty, entities := Map.empty,
                       dead_entities := []\<rparr>)))))"
    by auto
  have b: "next_entity_id (snd (spawner render2 () (snd (spawner movement1 ()
         (pending_one\<lparr>components := Map.empty, entities := Map.empty,
                       dead_entities := []\<rparr>))))) = 3"
    by (simp add: spawner_def new_entity_id pending_one_eval)
  have u: "entities pending_unknown 2 = None" "dead_entities pending_unknown = [1, 2]"
    by (simp_all add: pending_unknown_eval)
  then have "\<exists>e \<in> set (dead_entities pending_unknown). entities pending_unknown e = None"
    by simp
  with tick_reconciles_then_dispatches [of pending_unknown spawner "()"] u(2)
  have c: "map_option fst (process spawner () pending_unknown) = Some (Inl KeyError)
     \<and> map_option (dead_entities \<circ> snd) (process spawner () pending_unknown) = Some [1, 2]"
    by auto
  from rec sys a b u c show ?thesis by blast
qed

subsection \<open>Deferred removal\<close>

lemma get_component_from_entity_dead:
  "get_component_from_entity T e (m\<lparr>dead_entities := d\<rparr>) = get_component_from_entity T e m"
  by (simp add: get_component_from_entity_def)

lemma has_component_dead:
  "has_component e T (m\<lparr>dead_entities := d\<rparr>) = has_component e T m"
  by (simp add: has_component_def)

lemma get_component_loop_dead:
  "get_component_loop T es (m\<lparr>dead_entities := d\<rparr>) = get_component_loop T es m"
  by (induction es) (simp_all add: get_component_from_entity_dead split: sum.splits)

lemma get_component_dead:
  "get_component T (m\<lparr>dead_entities := d\<rparr>) = get_component T m"
  by (simp add: get_component_def get_component_loop_dead)

lemma lookup_indexes_dead:
  "lookup_indexes ts (m\<lparr>dead_entities := d\<rparr>) = lookup_indexes ts m"
  by (induction ts) (simp_all split: option.splits)

lemma lookup_components_dead:
  "lookup_components e ts (m\<lparr>dead_entities := d\<rparr>) = lookup_components e ts m"
  by (induction ts) (simp_all add: get_component_from_entity_dead split: sum.splits)

lemma get_components_loop_dead:
  "get_components_loop ts es (m\<lparr>dead_entities := d\<rparr>) = get_components_loop ts es m"
  by (induction es) (simp_all add: lookup_components_dead split: sum.splits)

lemma get_components_dead:
  "get_components ts (m\<lparr>dead_entities := d\<rparr>) = get_components ts m"
  by (simp add: get_components_def lookup_indexes_dead get_components_loop_dead
      split: sum.splits list.splits)

lemma get_component_loop_subset:
  "fst ` set (fst (get_component_loop T es m)) \<subseteq> set es"
proof (induction es)
  case Nil
  show ?case by simp
next
  case (Cons e es)
  obtain ys r where "get_component_loop T es m = (ys, r)"
    by (cases "get_component_loop T es m")
  with Cons show ?case by (auto split: sum.splits)
qed

lemma get_components_loop_subset:
  "fst ` set (get_components_loop ts es m) \<subseteq> set es"
  by (induction es) (auto split: sum.splits)

lemma absent_not_yielded:
  assumes "absent m e"
  shows "e \<notin> fst ` set (fst (get_component T m))"
    and "e \<notin> fst ` set (fst (get_components ts m))"
proof -
  from assms have no: "\<And>T. \<not> in_index m T e" by (simp add: absent_def)
  show "e \<notin> fst ` set (fst (get_component T m))"
  proof
    assume "e \<in> fst ` set (fst (get_component T m))"
    with get_component_loop_subset
    have "e \<in> set (case components m T of None \<Rightarrow> [] | Some s \<Rightarrow> s)"
      unfolding get_component_def by blast
    then have "in_index m T e" by (cases "components m T") (simp_all add: in_index_def)
    with no show False by simp
  qed
  show "e \<notin> fst ` set (fst (get_components ts m))"
  proof
    assume yielded: "e \<in> fst ` set (fst (get_components ts m))"
    then obtain s ss where ix: "lookup_indexes ts m = Inr (s # ss)"
      by (auto simp: get_components_def split: sum.splits list.splits)
    with yielded have "e \<in> fst ` set (get_components_loop ts (set_intersection s ss) m)"
      by (simp add: get_components_def)
    with get_components_loop_subset [of ts "set_intersection s ss" m]
    have "e \<in> set (set_intersection s ss)" by blast
    then have "e \<in> set s" by (simp add: set_set_intersection)
    moreover from ix obtain T where "components m T = Some s"
      by (cases ts) (auto split: option.splits sum.splits)
    ultimately have "in_index m T e" by (simp add: in_index_def)
    with no show False by simp
  qed
qed

lemma distinct_set_add: "distinct s \<Longrightarrow> distinct (set_add e s)"
  by (simp add: set_add_def distinct_insort)

lemma one_live_eval:
  "one_live = \<lparr>systems = [movement1, render2], next_entity_id = 1,
      components = [''Position'' \<mapsto> [1]],
      entities = [1 \<mapsto> [(''Position'', position)]], dead_entities = [],
      sys_Manager = (\<lambda>_. False)(1 := True, 2 := True)\<rparr>"
  by (simp add: one_live_def registered_eval new_entity_eval add_component_eval
      set_add_def position_def)

lemma ecs_invariant_one_live: "ecs_invariant one_live"
  by (auto simp: ecs_invariant_def in_index_def in_row_def one_live_eval
      split: if_splits option.splits)

lemma rows_are_dicts_one_live: "rows_are_dicts one_live"
  by (auto simp: rows_are_dicts_def one_live_eval split: if_splits)

lemma spawner_keeps_absent:
  "1 \<le> next_entity_id w \<and> absent w 1 \<longrightarrow>
     1 \<le> next_entity_id (snd (spawner s a w)) \<and> absent (snd (spawner s a w)) 1"
  by (simp add: spawner_def new_entity_eval absent_def in_index_def)

lemma process_spawner_pending_one:
  "process spawner () pending_one
     = Some (Inr (), snd (spawner render2 () (snd (spawner movement1 ()
         (pending_one\<lparr>components := Map.empty, entities := Map.empty,
                       dead_entities := []\<rparr>)))))"
proof -
  let ?R = "pending_one\<lparr>components := Map.empty, entities := Map.empty, dead_entities := []\<rparr>"
  have rec: "reconcile pending_one = (Inr (), ?R)"
    by (simp add: reconcile_def remove_entity_def set_discard_def pending_one_eval)
  have "dispatch spawner () 0 ?R = Some (spec_dispatch spawner () (drop 0 (systems ?R)) ?R)"
    by (intro dispatch_spec) (simp add: spawner_def new_entity_eval)
  moreover have "systems ?R = [movement1, render2]" by (simp add: pending_one_eval)
  moreover have "\<And>s w. fst (spawner s () w) = Inr ()" by (simp add: spawner_def)
  ultimately have "dispatch spawner () 0 ?R
      = Some (Inr (), snd (spawner render2 () (snd (spawner movement1 () ?R))))"
    by (simp add: prod_eq_iff split: prod.splits sum.splits)
  with rec show ?thesis by (simp add: process_def)
qed

text \<open>
  C6, as claimed: after a deferred \<open>remove_entity(id)\<close> of a live entity, one call of
  \<open>process\<close> leaves the id without components and out of every query. Entities 1 and 2
  hold a Position each; entity 1 is marked for deferred removal and then removed at once,
  so its id stays in the pending set. Entity 2 is now marked. The next \<open>process\<close>
  raises \<open>KeyError\<close> at the id 1, before it reaches 2: after this call entity 2 still has
  its Position and \<open>get_component(Position)\<close> still yields it.
\<close>

theorem deferred_destroy_survives_tick:
  "entities destroyed_while_pending 2 = Some [(''Position'', position)]
   \<and> fst (remove_entity 2 False destroyed_while_pending) = Inr ()
   \<and> dead_entities (snd (remove_entity 2 False destroyed_while_pending)) = [1, 2]
   \<and> process idle () (snd (remove_entity 2 False destroyed_while_pending))
       = Some (Inl KeyError, snd (remove_entity 2 False destroyed_while_pending))
   \<and> has_component 2 ''Position'' (snd (remove_entity 2 False destroyed_while_pending))
       = Inr True
   \<and> get_component ''Position'' (snd (remove_entity 2 False destroyed_while_pending))
       = ([(2, position)], None)"
  by (simp add: process_def reconcile_def remove_entity_def set_add_def
      destroyed_while_pending_eval has_component_def get_component_def
      get_component_from_entity_def)

text \<open>
  C6, amended: for a live entity with at least one component, in a state that satisfies
  the consistency invariant, a deferred \<open>remove_entity\<close> returns without an error and
  leaves \<open>has_component\<close>, \<open>get_component_from_entity\<close>, \<open>get_component\<close> and
  \<open>get_components\<close> with the results they had before the call, for every argument.
  If every id already pending still has a row, the reconciliation of the next \<open>process\<close>
  does not raise and leaves the id without a row and out of every index set before any
  system runs. At the end of that \<open>process\<close>, returned or raised in a system, the id
  still has no row and is in no index set, \<open>get_component_from_entity\<close> raises
  \<open>KeyError\<close> for it and no query yields it, provided the systems keep it so: there is
  a property \<open>Q\<close> of the reconciled state that every system's \<open>process\<close> preserves and
  under which it leaves an absent id absent (it neither attaches a component to the id
  nor creates an entity under that id).
\<close>

theorem deferred_destroy:
  assumes inv: "ecs_invariant m" and dicts: "rows_are_dicts m"
    and live: "entities m entity = Some r" "r \<noteq> []"
  shows "fst (remove_entity entity False m) = Inr ()
    \<and> has_component e T (snd (remove_entity entity False m)) = has_component e T m
    \<and> get_component_from_entity T e (snd (remove_entity entity False m))
        = get_component_from_entity T e m
    \<and> get_component T (snd (remove_entity entity False m)) = get_component T m
    \<and> get_components ts (snd (remove_entity entity False m)) = get_components ts m
    \<and> (distinct (dead_entities m) \<and> (\<forall>x \<in> set (dead_entities m). entities m x \<noteq> None)
        \<longrightarrow> (\<exists>m'. reconcile (snd (remove_entity entity False m)) = (Inr (), m')
               \<and> absent m' entity
               \<and> (Q m'
                    \<and> (\<forall>s a w. Q w \<and> absent w entity \<longrightarrow>
                           Q (snd (proc s a w)) \<and> absent (snd (proc s a w)) entity)
                    \<and> process proc args (snd (remove_entity entity False m)) = Some (res, m2)
                  \<longrightarrow> absent m2 entity
                    \<and> get_component_from_entity T entity m2 = Inl KeyError
                    \<and> entity \<notin> fst ` set (fst (get_component T m2))
                    \<and> entity \<notin> fst ` set (fst (get_components ts m2)))))"
proof -
  let ?m1 = "m\<lparr>dead_entities := set_add entity (dead_entities m)\<rparr>"
  have m1: "remove_entity entity False m = (Inr (), ?m1)" by (simp add: remove_entity_def)
  have after: "\<exists>m'. reconcile ?m1 = (Inr (), m') \<and> absent m' entity
      \<and> (Q m'
           \<and> (\<forall>s a w. Q w \<and> absent w entity \<longrightarrow>
                  Q (snd (proc s a w)) \<and> absent (snd (proc s a w)) entity)
           \<and> process proc args ?m1 = Some (res, m2)
         \<longrightarrow> absent m2 entity
           \<and> get_component_from_entity T entity m2 = Inl KeyError
           \<and> entity \<notin> fst ` set (fst (get_component T m2))
           \<and> entity \<notin> fst ` set (fst (get_components ts m2)))"
    if dist: "distinct (dead_entities m)"
      and rows: "\<forall>x \<in> set (dead_entities m). entities m x \<noteq> None"
  proof -
    have "ecs_invariant ?m1" using inv ecs_invariant_cong [of ?m1 m] by simp
    moreover have "rows_are_dicts ?m1" using dicts rows_are_dicts_cong [of ?m1 m] by simp
    moreover have "distinct (dead_entities ?m1)" using dist by (simp add: distinct_set_add)
    moreover have "\<forall>x \<in> set (dead_entities ?m1). entities ?m1 x \<noteq> None"
      using rows live(1) by simp
    ultimately obtain m' where
      m': "reconcile ?m1 = (Inr (), m')" "\<forall>x \<in> set (dead_entities ?m1). absent m' x"
      using reconcile_ok [of ?m1] by blast
    from m'(2) have start: "absent m' entity" by simp
    have "absent m2 entity
        \<and> get_component_from_entity T entity m2 = Inl KeyError
        \<and> entity \<notin> fst ` set (fst (get_component T m2))
        \<and> entity \<notin> fst ` set (fst (get_components ts m2))"
      if q: "Q m'"
        and keep: "\<forall>s a w. Q w \<and> absent w entity \<longrightarrow>
                     Q (snd (proc s a w)) \<and> absent (snd (proc s a w)) entity"
        and tick: "process proc args ?m1 = Some (res, m2)"
    proof -
      from tick m'(1) have "dispatch proc args 0 m' = Some (res, m2)"
        by (simp add: process_def)
      from dispatch_preserves [OF this, of "\<lambda>w. Q w \<and> absent w entity"] q start keep
      have gone: "absent m2 entity" by simp
      then have "get_component_from_entity T entity m2 = Inl KeyError"
        by (simp add: absent_def get_component_from_entity_def)
      with gone absent_not_yielded [OF gone] show ?thesis by blast
    qed
    with m'(1) start show ?thesis by blast
  qed
  show ?thesis
    using m1 after
    by (simp add: has_component_dead get_component_from_entity_dead get_component_dead
        get_components_dead)
qed

theorem deferred_destroy_witness:
  "entities one_live 1 = Some [(''Position'', position)]
   \<and> snd (remove_entity 1 False one_live) = pending_one
   \<and> has_component 1 ''Position'' pending_one = Inr True
   \<and> get_component ''Position'' pending_one = ([(1, position)], None)
   \<and> reconcile pending_one
       = (Inr (), pending_one\<lparr>components := Map.empty, entities := Map.empty,
                               dead_entities := []\<rparr>)
   \<and> absent (pending_one\<lparr>components := Map.empty, entities := Map.empty,
                          dead_entities := []\<rparr>) 1
   \<and> process spawner () pending_one
       = Some (Inr (), snd (spawner render2 () (snd (spawner movement1 ()
           (pending_one\<lparr>components := Map.empty, entities := Map.empty,
                         dead_entities := []\<rparr>)))))
   \<and> absent (snd (spawner render2 () (snd (spawner movement1 ()
           (pending_one\<lparr>components := Map.empty, entities := Map.empty,
                         dead_entities := []\<rparr>))))) 1
   \<and> 1 \<notin> fst ` set (fst (get_component ''Position''
         (snd (spawner render2 () (snd (spawner movement1 ()
           (pending_one\<lparr>components := Map.empty, entities := Map.empty,
                         dead_entities := []\<rparr>)))))))"
proof -
  let ?R = "pending_one\<lparr>components := Map.empty, entities := Map.empty, dead_entities := []\<rparr>"
  let ?F = "snd (spawner render2 () (snd (spawner movement1 () ?R)))"
  have row: "entities one_live 1 = Some [(''Position'', position)]"
    by (simp add: one_live_eval)
  have ne: "[(''Position'', position)] \<noteq> []" by simp
  have p1: "snd (remove_entity 1 False one_live) = pending_one" by (simp add: pending_one_def)
  have before: "has_component 1 ''Position'' one_live = Inr True"
    "get_component ''Position'' one_live = ([(1, position)], None)"
    by (simp_all add: has_component_def get_component_def get_component_from_entity_def
        one_live_eval)
  have rec: "reconcile pending_one = (Inr (), ?R)"
    by (simp add: reconcile_def remove_entity_def set_discard_def pending_one_eval)
  have q: "1 \<le> next_entity_id ?R" by (simp add: pending_one_eval)
  have d: "distinct (dead_entities one_live)"
    "\<forall>x \<in> set (dead_entities one_live). entities one_live x \<noteq> None"
    by (simp_all add: one_live_eval)
  note tick = process_spawner_pending_one
  from deferred_destroy [OF ecs_invariant_one_live rows_are_dicts_one_live row ne,
      of 1 "''Position''" "[''Position'']" "\<lambda>w. 1 \<le> next_entity_id w" spawner "()" "Inr ()" ?F]
    p1 before tick spawner_keeps_absent d rec q
  have "has_component 1 ''Position'' pending_one = Inr True
    \<and> get_component ''Position'' pending_one = ([(1, position)], None)
    \<and> absent ?R 1
    \<and> absent ?F 1
    \<and> 1 \<notin> fst ` set (fst (get_component ''Position'' ?F))"
    by simp
  with row p1 rec tick show ?thesis by blast
qed

end
